theory Spec2Isabelle
  imports
    Main
    "HOL-Library.AList"
    "HOL-Library.Multiset"
    "HOL-Library.Char_ord"
    "HOL-Library.List_Lexorder"
    "HOL-Library.Product_Lexorder"
begin

text \<open>
  A shallow embedding of \<^verbatim>\<open>human_folder_analysis.py\<close>: the scan of a directory tree
  (\<^verbatim>\<open>scan_human_folder_complete\<close>), the tables of the report (\<^verbatim>\<open>create_overview_sheet\<close>,
  \<^verbatim>\<open>create_subfolder_sheet\<close>, \<^verbatim>\<open>save_human_analysis_excel\<close>) and the run
  (\<^verbatim>\<open>main\<close>), with the functions of the Python library they call.  Python integers are
  \<^typ>\<open>int\<close>, dictionaries are association lists in insertion order, and what the
  program reads of the file system is a tree.
\<close>

section \<open>Strings, paths and extensions\<close>

text \<open>
  File names and paths are \<^typ>\<open>string\<close>s of ASCII characters.  The path functions are the
  POSIX flavour of the Python library (\<^verbatim>\<open>os.sep = '/'\<close>, no \<^verbatim>\<open>altsep\<close>).
\<close>

definition os_sep :: char where
  "os_sep = CHR ''/''"

definition extsep :: char where
  "extsep = CHR ''.''"

text \<open>
  \<^verbatim>\<open>str.lower\<close> on ASCII names, where it changes the letters \<^verbatim>\<open>A\<close> to \<^verbatim>\<open>Z\<close> and
  nothing else.  Names with other characters are outside this development.
\<close>

definition lower_char :: "char \<Rightarrow> char" where
  "lower_char c =
     (case map_of (zip ''ABCDEFGHIJKLMNOPQRSTUVWXYZ'' ''abcdefghijklmnopqrstuvwxyz'') c of
        None \<Rightarrow> c
      | Some d \<Rightarrow> d)"

definition lower :: "string \<Rightarrow> string" where
  "lower s = map lower_char s"

text \<open>\<^verbatim>\<open>s.endswith(suf)\<close> and \<^verbatim>\<open>s.startswith(pre)\<close>.\<close>

definition endswith :: "string \<Rightarrow> string \<Rightarrow> bool" where
  "endswith s suf \<longleftrightarrow> length suf \<le> length s \<and> drop (length s - length suf) s = suf"

definition startswith :: "string \<Rightarrow> string \<Rightarrow> bool" where
  "startswith s pre \<longleftrightarrow> take (length pre) s = pre"

text \<open>\<^verbatim>\<open>s.split(c)\<close> for a one-character separator: never empty, \<^verbatim>\<open>''.split(c) == ['']\<close>.\<close>

fun split_on :: "char \<Rightarrow> string \<Rightarrow> string list" where
  "split_on c [] = [[]]"
| "split_on c (x # xs) =
     (if x = c then [] # split_on c xs
      else (case split_on c xs of
              [] \<Rightarrow> [[x]]
            | p # ps \<Rightarrow> (x # p) # ps))"

text \<open>\<^verbatim>\<open>sep.join(parts)\<close>.\<close>

fun join :: "string \<Rightarrow> string list \<Rightarrow> string" where
  "join sep [] = []"
| "join sep [p] = p"
| "join sep (p # q # ps) = p @ sep @ join sep (q # ps)"

text \<open>\<^verbatim>\<open>os.path.join(a, b)\<close>.\<close>

definition os_path_join :: "string \<Rightarrow> string \<Rightarrow> string" where
  "os_path_join a b =
     (if startswith b [os_sep] then b
      else if a = [] \<or> endswith a [os_sep] then a @ b
      else a @ [os_sep] @ b)"

text \<open>\<^verbatim>\<open>str(n)\<close> for an integer, as the f-strings of the report print it.\<close>

fun str_nat :: "nat \<Rightarrow> string" where
  "str_nat n =
     (if n < 10 then [''0123456789'' ! n]
      else str_nat (n div 10) @ [''0123456789'' ! (n mod 10)])"

declare str_nat.simps [simp del]

definition str_int :: "int \<Rightarrow> string" where
  "str_int i = (if i < 0 then CHR ''-'' # str_nat (nat (- i)) else str_nat (nat i))"

text \<open>\<^verbatim>\<open>s.rfind(c)\<close>: the last index of \<open>c\<close>, or \<open>-1\<close>.\<close>

definition rfind :: "string \<Rightarrow> char \<Rightarrow> int" where
  "rfind s c =
     (case filter (\<lambda>i. s ! i = c) (rev [0..<length s]) of
        [] \<Rightarrow> - 1
      | i # _ \<Rightarrow> int i)"

text \<open>
  \<^verbatim>\<open>os.path.splitext(p)\<close>: the extension starts at the last dot of the last component,
  unless only dots stand before it in that component.  The \<^verbatim>\<open>while\<close> loop of the
  library returns at the first index between the component's start and the last dot that
  holds another character; it is the bounded search below.
\<close>

definition splitext :: "string \<Rightarrow> string \<times> string" where
  "splitext p =
     (let sepIndex = rfind p os_sep;
          dotIndex = rfind p extsep
      in if dotIndex > sepIndex \<and>
            list_ex (\<lambda>i. p ! i \<noteq> extsep) [nat (sepIndex + 1)..<nat dotIndex]
         then (take (nat dotIndex) p, drop (nat dotIndex) p)
         else (p, []))"

text \<open>
  \<^verbatim>\<open>Path(fname).name\<close>: the last component of the path that is neither empty nor
  \<^verbatim>\<open>'.'\<close>; the empty string when there is none.
\<close>

definition path_name :: "string \<Rightarrow> string" where
  "path_name fname =
     (case rev (filter (\<lambda>x. x \<noteq> [] \<and> x \<noteq> ''.'') (split_on os_sep fname)) of
        [] \<Rightarrow> []
      | x # _ \<Rightarrow> x)"

text \<open>\<^verbatim>\<open>name.lstrip('.')\<close>.\<close>

definition lstrip_dots :: "string \<Rightarrow> string" where
  "lstrip_dots s = dropWhile (\<lambda>c. c = CHR ''.'') s"

text \<open>
  \<^verbatim>\<open>Path(fname).suffixes\<close>: no suffix for a name that ends in a dot; otherwise the leading
  dots are stripped and every piece after the first dot is a suffix.
\<close>

definition suffixes :: "string \<Rightarrow> string list" where
  "suffixes fname =
     (let name = path_name fname
      in if endswith name ''.'' then []
         else map (\<lambda>suffix. CHR ''.'' # suffix) (tl (split_on CHR ''.'' (lstrip_dots name))))"

text \<open>\<^verbatim>\<open>is_nifti_filename\<close>: true only for \<^verbatim>\<open>.nii\<close> or \<^verbatim>\<open>.nii.gz\<close>, case-insensitive.\<close>

definition is_nifti_filename :: "string \<Rightarrow> bool" where
  "is_nifti_filename fname =
     (let s = lower (concat (suffixes fname))
      in endswith s ''.nii'' \<or> endswith s ''.nii.gz'')"

section \<open>Subject status\<close>

text \<open>
  The three-way decision of \<^verbatim>\<open>create_subfolder_sheet\<close> on the \<^verbatim>\<open>.mat\<close>,
  \<^verbatim>\<open>.dat\<close> and \<^verbatim>\<open>.ima\<close> counts of one subject.
\<close>

definition subject_status_of :: "int \<Rightarrow> int \<Rightarrow> int \<Rightarrow> string" where
  "subject_status_of mat dat ima =
     (if mat > 0 then ''Processed''
      else if (dat + ima) > 0 then ''Not Processed''
      else ''Unknown'')"

section \<open>Counters and dictionaries\<close>

text \<open>
  A Python \<^verbatim>\<open>dict\<close> keeps its keys in insertion order, and the report reads that
  order, so a dictionary is an association list: a new key goes to the end
  (\<^const>\<open>AList.update\<close>), a present key keeps its place.  A \<^verbatim>\<open>Counter\<close> is a
  dictionary of integers that reads \<open>0\<close> for a missing key.
\<close>

type_synonym 'k counter = "('k \<times> int) list"

definition counter_get :: "'k counter \<Rightarrow> 'k \<Rightarrow> int" where
  "counter_get c k = (case map_of c k of None \<Rightarrow> 0 | Some n \<Rightarrow> n)"

text \<open>\<^verbatim>\<open>c[k] += n\<close>.\<close>

definition counter_add :: "'k counter \<Rightarrow> 'k \<Rightarrow> int \<Rightarrow> 'k counter" where
  "counter_add c k n = AList.update k (counter_get c k + n) c"

text \<open>\<^verbatim>\<open>sum(c.values())\<close>.\<close>

definition sum_values :: "'k counter \<Rightarrow> int" where
  "sum_values c = sum_list (map snd c)"

text \<open>\<^verbatim>\<open>max(xs) if xs else 0\<close>.\<close>

fun max_or_0 :: "int list \<Rightarrow> int" where
  "max_or_0 [] = 0"
| "max_or_0 (x # xs) = fold max xs x"

text \<open>
  \<^verbatim>\<open>Counter.most_common(n)\<close> and \<^verbatim>\<open>sorted(items, key=count, reverse=True)[:n]\<close>:
  as the Python library documents them, the items by descending count, items of equal
  count in the order of the dictionary, cut after \<open>n\<close>.
\<close>

definition most_common :: "nat \<Rightarrow> 'k counter \<Rightarrow> ('k \<times> int) list" where
  "most_common n c = take n (sort_key (\<lambda>item. - snd item) c)"

section \<open>The scan\<close>

subsection \<open>Records of the scan\<close>

text \<open>\<^verbatim>\<open>folder_info\<close>: one per visited directory.\<close>

record folder_info =
  path :: string
  full_path :: string
  depth :: int
  num_subfolders :: int
  num_files :: int
  file_types :: "string counter"
  dicom_files :: int
  dat_files :: int
  nifti_files :: int
  subfolder_names :: "string list"

text \<open>
  The per-main-subfolder entry of \<^verbatim>\<open>human_data['subfolders']\<close>; its fields carry the
  prefix \<open>sf_\<close>.
\<close>

record sf_data =
  sf_path :: string
  sf_all_folders :: "folder_info list"
  sf_file_counts :: "string counter"
  sf_depth_counts :: "int counter"
  sf_total_files :: int
  sf_total_folders :: int
  sf_dicom_files :: int
  sf_dat_files :: int
  sf_folder_details :: "folder_info list"

text \<open>\<^verbatim>\<open>human_data['overview']\<close>; its fields carry the prefix \<open>ov_\<close>.\<close>

record overview =
  ov_total_folders :: int
  ov_total_files :: int
  ov_main_subfolders :: int
  ov_total_dicom :: int
  ov_total_dat :: int
  ov_total_nifti :: int
  ov_max_depth :: int

text \<open>\<^verbatim>\<open>human_data\<close> (its reserved, unused \<^verbatim>\<open>folder_tree\<close> is left out).\<close>

record human_data =
  hd_overview :: overview
  subfolders :: "(string \<times> sf_data) list"
  all_folders :: "folder_info list"
  all_files_by_type :: "string counter"

text \<open>
  One item of \<^verbatim>\<open>os.walk(human_root)\<close>: the directory \<open>root\<close>, the names of its
  subdirectories and of its files, and with them the value of
  \<^verbatim>\<open>os.path.relpath(root, human_root)\<close>.
\<close>

record walk_entry =
  w_root :: string
  w_rel_path :: string
  w_dirs :: "string list"
  w_files :: "string list"

subsection \<open>The loop over the files of one directory\<close>

text \<open>
  The counters the inner loop of \<^verbatim>\<open>scan_human_folder_complete\<close> updates for each file:
  the directory's own \<^verbatim>\<open>file_types\<close>, the global \<^verbatim>\<open>all_files_by_type\<close>, and the
  three category counts.
\<close>

record file_acc =
  fa_file_types :: "string counter"
  fa_all_files_by_type :: "string counter"
  dicom_count :: int
  dat_count :: int
  nifti_count :: int

definition file_step :: "string \<Rightarrow> file_acc \<Rightarrow> file_acc" where
  "file_step file a =
     (let ext = lower (snd (splitext file))
      in \<lparr>fa_file_types = counter_add (fa_file_types a) ext 1,
          fa_all_files_by_type = counter_add (fa_all_files_by_type a) ext 1,
          dicom_count = (if ext \<in> {''.dcm'', ''.ima''} then dicom_count a + 1 else dicom_count a),
          dat_count = (if ext = ''.dat'' then dat_count a + 1 else dat_count a),
          nifti_count = (if is_nifti_filename file then nifti_count a + 1 else nifti_count a)\<rparr>)"

definition count_files :: "string list \<Rightarrow> string counter \<Rightarrow> file_acc" where
  "count_files files all_by_type =
     fold file_step files
       \<lparr>fa_file_types = [], fa_all_files_by_type = all_by_type,
        dicom_count = 0, dat_count = 0, nifti_count = 0\<rparr>"

subsection \<open>The loop over the walk\<close>

text \<open>The state the outer loop carries from one directory to the next.\<close>

record scan_state =
  st_subfolders :: "(string \<times> sf_data) list"
  st_all_folders :: "folder_info list"
  st_all_files_by_type :: "string counter"
  st_total_folders :: int
  st_total_files :: int

text \<open>
  \<^verbatim>\<open>current_subfolder\<close> and \<^verbatim>\<open>depth\<close> of a relative path: \<open>None\<close> and \<open>0\<close> for
  \<^verbatim>\<open>'.'\<close>, else the first segment and the number of segments.
\<close>

definition current_subfolder_of :: "string \<Rightarrow> string option" where
  "current_subfolder_of rel_path =
     (if rel_path = ''.'' then None
      else Some (hd (split_on os_sep rel_path)))"

definition depth_of :: "string \<Rightarrow> int" where
  "depth_of rel_path =
     (if rel_path = ''.'' then 0
      else int (length (split_on os_sep rel_path)))"

definition make_folder_info :: "walk_entry \<Rightarrow> file_acc \<Rightarrow> folder_info" where
  "make_folder_info w a =
     \<lparr>path = w_rel_path w,
      full_path = w_root w,
      depth = depth_of (w_rel_path w),
      num_subfolders = int (length (w_dirs w)),
      num_files = int (length (w_files w)),
      file_types = fa_file_types a,
      dicom_files = dicom_count a,
      dat_files = dat_count a,
      nifti_files = nifti_count a,
      subfolder_names = take 10 (w_dirs w)\<rparr>"

text \<open>The updates of one main subfolder's entry (source lines 158 to 166).\<close>

definition sf_accumulate :: "folder_info \<Rightarrow> sf_data \<Rightarrow> sf_data" where
  "sf_accumulate folder sf =
     sf\<lparr>sf_folder_details := sf_folder_details sf @ [folder],
        sf_total_folders := sf_total_folders sf + 1,
        sf_total_files := sf_total_files sf + num_files folder,
        sf_dicom_files := sf_dicom_files sf + dicom_files folder,
        sf_dat_files := sf_dat_files sf + dat_files folder,
        sf_depth_counts := counter_add (sf_depth_counts sf) (depth folder) 1,
        sf_file_counts :=
          fold (\<lambda>(ext, count) c. counter_add c ext count) (file_types folder) (sf_file_counts sf)\<rparr>"

text \<open>
  The test \<^verbatim>\<open>current_subfolder and current_subfolder in human_data['subfolders']\<close>:
  \<^verbatim>\<open>None\<close> and the empty string are false.
\<close>

definition in_main_subfolder :: "string option \<Rightarrow> (string \<times> sf_data) list \<Rightarrow> bool" where
  "in_main_subfolder current_subfolder subs =
     (case current_subfolder of
        None \<Rightarrow> False
      | Some name \<Rightarrow> name \<noteq> [] \<and> name \<in> fst ` set subs)"

definition walk_step :: "walk_entry \<Rightarrow> scan_state \<Rightarrow> scan_state" where
  "walk_step w s =
     (let current_subfolder = current_subfolder_of (w_rel_path w);
          a = count_files (w_files w) (st_all_files_by_type s);
          folder = make_folder_info w a
      in \<lparr>st_subfolders =
            (if in_main_subfolder current_subfolder (st_subfolders s)
             then AList.map_entry (the current_subfolder) (sf_accumulate folder) (st_subfolders s)
             else st_subfolders s),
          st_all_folders = st_all_folders s @ [folder],
          st_all_files_by_type = fa_all_files_by_type a,
          st_total_folders = st_total_folders s + 1,
          st_total_files = st_total_files s + int (length (w_files w))\<rparr>)"

text \<open>The per-subfolder entries before the walk, one for each listed main subfolder.\<close>

definition new_sf_data :: "string \<Rightarrow> sf_data" where
  "new_sf_data p =
     \<lparr>sf_path = p, sf_all_folders = [], sf_file_counts = [], sf_depth_counts = [],
      sf_total_files = 0, sf_total_folders = 0, sf_dicom_files = 0, sf_dat_files = 0,
      sf_folder_details = []\<rparr>"

definition init_subfolders :: "string \<Rightarrow> string list \<Rightarrow> (string \<times> sf_data) list" where
  "init_subfolders human_root human_subfolders =
     fold (\<lambda>subfolder d. AList.update subfolder (new_sf_data (os_path_join human_root subfolder)) d)
       human_subfolders []"

definition init_state :: "string \<Rightarrow> string list \<Rightarrow> scan_state" where
  "init_state human_root human_subfolders =
     \<lparr>st_subfolders = init_subfolders human_root human_subfolders,
      st_all_folders = [], st_all_files_by_type = [],
      st_total_folders = 0, st_total_files = 0\<rparr>"

text \<open>The overview computed after the walk (source lines 173 to 181).\<close>

definition make_overview :: "string list \<Rightarrow> scan_state \<Rightarrow> overview" where
  "make_overview human_subfolders s =
     \<lparr>ov_total_folders = st_total_folders s,
      ov_total_files = st_total_files s,
      ov_main_subfolders = int (length human_subfolders),
      ov_total_dicom = sum_list (map dicom_files (st_all_folders s)),
      ov_total_dat = sum_list (map dat_files (st_all_folders s)),
      ov_total_nifti = sum_list (map nifti_files (st_all_folders s)),
      ov_max_depth = max_or_0 (map depth (st_all_folders s))\<rparr>"

text \<open>
  The scan once the root has been listed: \<open>human_subfolders\<close> is the list of directory
  names found by \<^verbatim>\<open>os.listdir\<close>, \<open>walk\<close> the sequence \<^verbatim>\<open>os.walk\<close> produces.
\<close>

definition scan_walk :: "string \<Rightarrow> string list \<Rightarrow> walk_entry list \<Rightarrow> human_data" where
  "scan_walk human_root human_subfolders walk =
     (let s = fold walk_step walk (init_state human_root human_subfolders)
      in \<lparr>hd_overview = make_overview human_subfolders s,
          subfolders = st_subfolders s,
          all_folders = st_all_folders s,
          all_files_by_type = st_all_files_by_type s\<rparr>)"

subsection \<open>The directory tree\<close>

text \<open>
  What the scan reads of the file system: a directory that can be listed holds file names
  and named subdirectories, each in listing order (\<^verbatim>\<open>os.listdir\<close> and \<^verbatim>\<open>os.walk\<close>
  are taken to list a directory in the same order); a path that cannot be listed, a
  directory without permission or, at the root, a file, is \<open>Unreadable\<close>.  Symbolic links
  are not modelled.
\<close>

datatype node =
  Dir "string list" "(string \<times> node) list"
| Unreadable

text \<open>
  \<^verbatim>\<open>os.walk(root)\<close>, top-down: a directory, then the walks of its subdirectories in
  order; a directory that cannot be listed yields nothing (the default \<^verbatim>\<open>onerror\<close>).
  \<open>parts\<close> are the names on the way from the walk's start, from which
  \<^verbatim>\<open>os.path.relpath\<close> gives \<^verbatim>\<open>'.'\<close> or the names joined.
\<close>

definition relpath_of :: "string list \<Rightarrow> string" where
  "relpath_of parts = (if parts = [] then ''.'' else join [os_sep] parts)"

fun os_walk :: "string \<Rightarrow> string list \<Rightarrow> node \<Rightarrow> walk_entry list" where
  "os_walk root parts Unreadable = []"
| "os_walk root parts (Dir files subs) =
     \<lparr>w_root = root, w_rel_path = relpath_of parts, w_dirs = map fst subs, w_files = files\<rparr> #
     concat (map (\<lambda>(name, child). os_walk (os_path_join root name) (parts @ [name]) child) subs)"

text \<open>
  \<^verbatim>\<open>scan_human_folder_complete\<close>; the root is \<open>None\<close> when the path does not exist.
  When \<^verbatim>\<open>os.listdir\<close> raises, the function prints the error and returns \<^verbatim>\<open>None\<close>.
\<close>

definition scan_human_folder_complete :: "string \<Rightarrow> node option \<Rightarrow> human_data option" where
  "scan_human_folder_complete human_root fs =
     (case fs of
        None \<Rightarrow> None
      | Some Unreadable \<Rightarrow> None
      | Some (Dir files subs) \<Rightarrow>
          Some (scan_walk human_root (map fst subs) (os_walk human_root [] (Dir files subs))))"

section \<open>The report\<close>

subsection \<open>Overview and file types\<close>

record overview_row =
  Category :: string
  Total_Folders :: int
  Total_Files :: int
  DICOM_Files :: int
  DAT_Files :: int
  NIFTI_Files :: int
  Main_Subfolders :: int
  Max_Depth :: int

definition global_row :: "human_data \<Rightarrow> overview_row" where
  "global_row human_data =
     \<lparr>Category = ''HUMAN FOLDER TOTAL'',
      Total_Folders = ov_total_folders (hd_overview human_data),
      Total_Files = ov_total_files (hd_overview human_data),
      DICOM_Files = ov_total_dicom (hd_overview human_data),
      DAT_Files = ov_total_dat (hd_overview human_data),
      NIFTI_Files = ov_total_nifti (hd_overview human_data),
      Main_Subfolders = ov_main_subfolders (hd_overview human_data),
      Max_Depth = ov_max_depth (hd_overview human_data)\<rparr>"

definition subfolder_row :: "string \<Rightarrow> sf_data \<Rightarrow> overview_row" where
  "subfolder_row subfolder_name sf =
     \<lparr>Category = subfolder_name,
      Total_Folders = sf_total_folders sf,
      Total_Files = sf_total_files sf,
      DICOM_Files = sf_dicom_files sf,
      DAT_Files = sf_dat_files sf,
      NIFTI_Files = sum_list (map nifti_files (sf_folder_details sf)),
      Main_Subfolders =
        (case sf_folder_details sf of [] \<Rightarrow> 0 | first # _ \<Rightarrow> num_subfolders first),
      Max_Depth = max_or_0 (map fst (sf_depth_counts sf))\<rparr>"

text \<open>\<^verbatim>\<open>create_overview_sheet\<close>: the overview rows and the top 20 file types.\<close>

definition create_overview_sheet :: "human_data \<Rightarrow> overview_row list \<times> (string \<times> int) list" where
  "create_overview_sheet human_data =
     (global_row human_data # map (\<lambda>(name, sf). subfolder_row name sf) (subfolders human_data),
      most_common 20 (all_files_by_type human_data))"

subsection \<open>The sheet of one main subfolder\<close>

text \<open>The path parts of a folder of the subfolder \<open>subfolder_name\<close>.\<close>

definition parts_of :: "string \<Rightarrow> folder_info \<Rightarrow> string list" where
  "parts_of subfolder_name folder =
     (if path folder = subfolder_name then [subfolder_name]
      else split_on os_sep (path folder))"

text \<open>
  \<^verbatim>\<open>subject_ext_counts\<close>, a \<^verbatim>\<open>defaultdict(Counter)\<close>: the subject is the second path
  part; a subject gets its counter with the first extension counted for it.
\<close>

definition subject_add ::
  "string \<Rightarrow> string \<times> int \<Rightarrow> (string \<times> string counter) list \<Rightarrow> (string \<times> string counter) list" where
  "subject_add subject item d =
     AList.update subject
       (counter_add (case map_of d subject of None \<Rightarrow> [] | Some cnts \<Rightarrow> cnts) (fst item) (snd item)) d"

definition subject_step ::
  "string \<Rightarrow> folder_info \<Rightarrow> (string \<times> string counter) list \<Rightarrow> (string \<times> string counter) list" where
  "subject_step subfolder_name folder d =
     (let parts = parts_of subfolder_name folder
      in if length parts > 1 \<and> parts ! 1 \<noteq> []
         then fold (subject_add (parts ! 1)) (file_types folder) d
         else d)"

definition subject_ext_counts :: "string \<Rightarrow> sf_data \<Rightarrow> (string \<times> string counter) list" where
  "subject_ext_counts subfolder_name sf =
     fold (subject_step subfolder_name) (sf_folder_details sf) []"

definition status_of_counts :: "string counter \<Rightarrow> string" where
  "status_of_counts cnts =
     subject_status_of (counter_get cnts ''.mat'') (counter_get cnts ''.dat'')
       (counter_get cnts ''.ima'')"

definition subject_status :: "string \<Rightarrow> sf_data \<Rightarrow> (string \<times> string) list" where
  "subject_status subfolder_name sf =
     map (\<lambda>(subj, cnts). (subj, status_of_counts cnts)) (subject_ext_counts subfolder_name sf)"

text \<open>
  A row of a subfolder sheet.  The column \<^verbatim>\<open>Total_Files\<close> of this sheet is the field
  \<open>Folder_Files\<close>.
\<close>

record sheet_row =
  Relative_Path :: string
  Level_1 :: string
  Level_2 :: string
  Level_3 :: string
  Level_4 :: string
  Deeper :: string
  Depth :: int
  Direct_Subfolders :: int
  Folder_Files :: int
  DICOM :: int
  DAT :: int
  NIFTI :: int
  File_Types :: string
  Subfolder_Names :: string
  Subject_Status :: string

text \<open>\<^verbatim>\<open>xs[i] if len(xs) > i else ''\<close>.\<close>

definition part_or_empty :: "string list \<Rightarrow> nat \<Rightarrow> string" where
  "part_or_empty xs i = (if length xs > i then xs ! i else [])"

definition make_row :: "string \<Rightarrow> (string \<times> string) list \<Rightarrow> folder_info \<Rightarrow> sheet_row" where
  "make_row subfolder_name statuses folder =
     (let path_parts = parts_of subfolder_name folder;
          subj = part_or_empty path_parts 1;
          status =
            (if subj \<noteq> [] then (case map_of statuses subj of None \<Rightarrow> [] | Some st \<Rightarrow> st) else [])
      in \<lparr>Relative_Path = path folder,
          Level_1 = part_or_empty path_parts 0,
          Level_2 = part_or_empty path_parts 1,
          Level_3 = part_or_empty path_parts 2,
          Level_4 = part_or_empty path_parts 3,
          Deeper = (if length path_parts > 4 then join [os_sep] (drop 4 path_parts) else []),
          Depth = depth folder,
          Direct_Subfolders = num_subfolders folder,
          Folder_Files = num_files folder,
          DICOM = dicom_files folder,
          DAT = dat_files folder,
          NIFTI = nifti_files folder,
          File_Types =
            join '', ''
              (map (\<lambda>(ext, count). ext @ ''('' @ str_int count @ '')'')
                 (most_common 5 (file_types folder))),
          Subfolder_Names = join '', '' (take 5 (subfolder_names folder)),
          Subject_Status = status\<rparr>)"

text \<open>
  \<^verbatim>\<open>create_subfolder_sheet\<close>: no row for a subfolder without folders; otherwise the rows
  sorted by \<^verbatim>\<open>['Depth', 'Relative_Path']\<close> (a stable sort on the pair).
\<close>

definition create_subfolder_sheet :: "string \<Rightarrow> sf_data \<Rightarrow> sheet_row list" where
  "create_subfolder_sheet subfolder_name sf =
     (if sf_folder_details sf = [] then []
      else sort_key (\<lambda>row. (Depth row, Relative_Path row))
             (map (make_row subfolder_name (subject_status subfolder_name sf))
                (sf_folder_details sf)))"

subsection \<open>The workbook\<close>

text \<open>A row of the sheet \<^verbatim>\<open>All_Folders\<close>: the seven columns kept of a folder.\<close>

record all_folders_row =
  af_path :: string
  af_depth :: int
  af_num_subfolders :: int
  af_num_files :: int
  af_dicom_files :: int
  af_dat_files :: int
  af_nifti_files :: int

definition all_folders_row_of :: "folder_info \<Rightarrow> all_folders_row" where
  "all_folders_row_of folder =
     \<lparr>af_path = path folder, af_depth = depth folder,
      af_num_subfolders = num_subfolders folder, af_num_files = num_files folder,
      af_dicom_files = dicom_files folder, af_dat_files = dat_files folder,
      af_nifti_files = nifti_files folder\<rparr>"

definition all_folders_sheet :: "human_data \<Rightarrow> all_folders_row list" where
  "all_folders_sheet human_data =
     sort_key (\<lambda>row. (af_depth row, af_path row)) (map all_folders_row_of (all_folders human_data))"

datatype sheet =
  Overview_Sheet "overview_row list"
| File_Types_Sheet "(string \<times> int) list"
| Subfolder_Sheet "sheet_row list"
| All_Folders_Sheet "all_folders_row list"

text \<open>\<^verbatim>\<open>re.sub(r'[\\/*?:\[\]]', '_', subfolder_name)[:31]\<close>.\<close>

definition sheet_name_of :: "string \<Rightarrow> string" where
  "sheet_name_of subfolder_name =
     take 31 (map (\<lambda>c. if c \<in> set (CHR 0x5C # ''/*?:[]'') then CHR ''_'' else c) subfolder_name)"

text \<open>
  The sheets \<^verbatim>\<open>save_human_analysis_excel\<close> hands to the writer, one \<^verbatim>\<open>to_excel\<close>
  call each, in order: the overview, the file types, a sheet for each main subfolder
  that has rows, and \<^verbatim>\<open>All_Folders\<close> when there is a folder.
\<close>

definition excel_calls :: "human_data \<Rightarrow> (string \<times> sheet) list" where
  "excel_calls human_data =
     (let (df_overview, df_file_types) = create_overview_sheet human_data
      in [(''Overview'', Overview_Sheet df_overview),
          (''File_Types'', File_Types_Sheet df_file_types)] @
         concat (map (\<lambda>(subfolder_name, sf).
                        (let df_subfolder = create_subfolder_sheet subfolder_name sf
                         in if df_subfolder \<noteq> []
                            then [(sheet_name_of subfolder_name, Subfolder_Sheet df_subfolder)]
                            else []))
                   (subfolders human_data)) @
         (if all_folders human_data \<noteq> []
          then [(''All_Folders'', All_Folders_Sheet (all_folders_sheet human_data))]
          else []))"

text \<open>
  \<^verbatim>\<open>pd.ExcelWriter\<close> is not code of this program, and the program guards none of its
  exceptions (a missing output folder, a cell the engine refuses).  What it does with a
  file name and the calls made on it is a parameter: either the \<^verbatim>\<open>with\<close> block ends
  and a workbook is stored (sheets of one name are the engine's matter), or an exception
  leaves the block, with the part of the workbook written so far left behind or not.
\<close>

datatype write_result =
  Saved "(string \<times> sheet) list"
| Raised "(string \<times> sheet) list option"

type_synonym excel_writer = "string \<Rightarrow> (string \<times> sheet) list \<Rightarrow> write_result"

text \<open>
  \<^verbatim>\<open>save_human_analysis_excel\<close>: the name of the file, with the time stamp a parameter,
  and what the writer does with the sheets.
\<close>

definition save_human_analysis_excel ::
  "excel_writer \<Rightarrow> human_data \<Rightarrow> string \<Rightarrow> string \<Rightarrow> string \<times> write_result" where
  "save_human_analysis_excel excel human_data output_folder timestamp =
     (let output_file =
            os_path_join output_folder (''Human_Detailed_Analysis_'' @ timestamp @ ''.xlsx'')
      in (output_file, excel output_file (excel_calls human_data)))"

section \<open>The run\<close>

text \<open>
  \<^verbatim>\<open>main\<close>: what it returns (the name of the workbook, or \<open>None\<close>), whether an
  exception leaves it instead (then nothing is returned), and the workbooks on disk
  after it.  Console output is not modelled.
\<close>

record run =
  returned :: "string option"
  raised :: bool
  written :: "(string \<times> (string \<times> sheet) list) list"

definition main :: "excel_writer \<Rightarrow> string \<Rightarrow> string \<Rightarrow> string \<Rightarrow> node option \<Rightarrow> run" where
  "main excel human_root output_folder timestamp fs =
     (if fs = None then \<lparr>returned = None, raised = False, written = []\<rparr>
      else (case scan_human_folder_complete human_root fs of
              None \<Rightarrow> \<lparr>returned = None, raised = False, written = []\<rparr>
            | Some human_data \<Rightarrow>
                (case save_human_analysis_excel excel human_data output_folder timestamp of
                   (excel_file, Saved workbook) \<Rightarrow>
                     \<lparr>returned = Some excel_file, raised = False,
                      written = [(excel_file, workbook)]\<rparr>
                 | (excel_file, Raised None) \<Rightarrow>
                     \<lparr>returned = None, raised = True, written = []\<rparr>
                 | (excel_file, Raised (Some partial)) \<Rightarrow>
                     \<lparr>returned = None, raised = True, written = [(excel_file, partial)]\<rparr>)))"

section \<open>Notions used in the properties\<close>

text \<open>The key under which a file is counted: its last extension in lower case.\<close>

abbreviation ext_key :: "string \<Rightarrow> string" where
  "ext_key file \<equiv> lower (snd (splitext file))"

text \<open>
  The \<^verbatim>\<open>folder_info\<close> the scan builds for one item of the walk; it does not depend on
  the state of the scan.
\<close>

definition folder_record :: "walk_entry \<Rightarrow> folder_info" where
  "folder_record w = make_folder_info w (count_files (w_files w) [])"

text \<open>An item of the walk belongs to the main subfolder \<open>name\<close>.\<close>

definition member_of :: "string \<Rightarrow> walk_entry \<Rightarrow> bool" where
  "member_of name w \<longleftrightarrow> name \<noteq> [] \<and> current_subfolder_of (w_rel_path w) = Some name"

text \<open>A folder of the main subfolder \<open>subfolder_name\<close> belongs to the subject \<open>subj\<close>.\<close>

definition has_subject :: "string \<Rightarrow> string \<Rightarrow> folder_info \<Rightarrow> bool" where
  "has_subject subfolder_name subj folder \<longleftrightarrow>
     (let parts = parts_of subfolder_name folder
      in length parts > 1 \<and> parts ! 1 \<noteq> [] \<and> parts ! 1 = subj)"

text \<open>The sum of one total over all main subfolders.\<close>

definition group_sum :: "(sf_data \<Rightarrow> int) \<Rightarrow> human_data \<Rightarrow> int" where
  "group_sum f human_data = sum_list (map (\<lambda>(name, sf). f sf) (subfolders human_data))"

text \<open>
  The totals of one main subfolder, with the two counters read as dictionaries (two
  Python dictionaries are equal when they hold the same keys with the same values, in
  any order) and the maximal depth as the overview sheet computes it.
\<close>

record group_totals =
  gt_total_folders :: int
  gt_total_files :: int
  gt_dicom_files :: int
  gt_dat_files :: int
  gt_extension_counts :: "string \<Rightarrow> int option"
  gt_depth_histogram :: "int \<Rightarrow> int option"
  gt_max_depth :: int

definition group_totals_of :: "sf_data \<Rightarrow> group_totals" where
  "group_totals_of sf =
     \<lparr>gt_total_folders = sf_total_folders sf,
      gt_total_files = sf_total_files sf,
      gt_dicom_files = sf_dicom_files sf,
      gt_dat_files = sf_dat_files sf,
      gt_extension_counts = map_of (sf_file_counts sf),
      gt_depth_histogram = map_of (sf_depth_counts sf),
      gt_max_depth = max_or_0 (map fst (sf_depth_counts sf))\<rparr>"

text \<open>The distinct elements of a list, in the order in which each is first seen.\<close>

fun first_seen :: "'a list \<Rightarrow> 'a list" where
  "first_seen [] = []"
| "first_seen (y # ys) = y # filter (\<lambda>z. z \<noteq> y) (first_seen ys)"

text \<open>
  A name a directory entry can have, and a tree as a file system holds it: every name
  valid, no name twice in one directory.
\<close>

definition valid_name :: "string \<Rightarrow> bool" where
  "valid_name name \<longleftrightarrow> name \<noteq> [] \<and> os_sep \<notin> set name \<and> name \<noteq> ''.'' \<and> name \<noteq> ''..''"

fun wf_node :: "node \<Rightarrow> bool" where
  "wf_node Unreadable = True"
| "wf_node (Dir files subs) =
     (distinct (map fst subs) \<and> (\<forall>(name, child) \<in> set subs. valid_name name \<and> wf_node child))"

text \<open>The lists of names under which \<^const>\<open>os_walk\<close> visits the directories of a tree.\<close>

fun walk_parts :: "string list \<Rightarrow> node \<Rightarrow> string list list" where
  "walk_parts parts Unreadable = []"
| "walk_parts parts (Dir files subs) =
     parts # concat (map (\<lambda>(name, child). walk_parts (parts @ [name]) child) subs)"

text \<open>
  The claim's reading of the key of a file: the part of the name from its last dot on,
  empty for a name without a dot.
\<close>

definition final_dot_suffix :: "string \<Rightarrow> string" where
  "final_dot_suffix name =
     (if CHR ''.'' \<in> set name
      then CHR ''.'' # rev (takeWhile (\<lambda>c. c \<noteq> CHR ''.'') (rev name))
      else [])"

text \<open>Two writers: one that stores every sheet it is given, one that cannot open the file.\<close>

definition storing_writer :: excel_writer where
  "storing_writer output_file calls = Saved calls"

definition refusing_writer :: excel_writer where
  "refusing_writer output_file calls = Raised None"

subsection \<open>An example tree\<close>

text \<open>
  A root with one file of its own and three main subfolders: subject \<^verbatim>\<open>S1\<close> of \<^verbatim>\<open>A\<close>
  holds a \<^verbatim>\<open>.dat\<close> and a \<^verbatim>\<open>.mat\<close> file, subject \<^verbatim>\<open>S2\<close> of \<^verbatim>\<open>B\<close> holds two
  \<^verbatim>\<open>.ima\<close> files and a compressed NIfTI file one level down, subject \<^verbatim>\<open>S3\<close> of \<^verbatim>\<open>C\<close>
  holds the single file \<^verbatim>\<open>a.mat.gz\<close>.
\<close>

definition example_tree :: node where
  "example_tree =
     Dir [''notes.txt'']
       [(''A'', Dir [] [(''S1'', Dir [''raw.dat'', ''out.mat''] [])]),
        (''B'', Dir [] [(''S2'', Dir [] [(''run1'', Dir [''1.ima'', ''2.IMA'', ''brain.nii.gz''] [])])]),
        (''C'', Dir [] [(''S3'', Dir [''a.mat.gz''] [])])]"

definition example_scan :: human_data where
  "example_scan =
     scan_walk ''/data/Human'' [''A'', ''B'', ''C''] (os_walk ''/data/Human'' [] example_tree)"

definition example_group :: "string \<Rightarrow> sf_data" where
  "example_group name = the (map_of (subfolders example_scan) name)"

text \<open>A main subfolder whose one subject holds only a file named \<^verbatim>\<open>.mat\<close>.\<close>

definition hidden_tree :: node where
  "hidden_tree = Dir [] [(''D'', Dir [] [(''S4'', Dir [''.mat''] [])])]"

definition hidden_group :: sf_data where
  "hidden_group =
     the (map_of (subfolders (scan_walk ''/data/Human'' [''D''] (os_walk ''/data/Human'' [] hidden_tree)))
            ''D'')"

section \<open>Properties of the string functions\<close>

lemma split_on_not_Nil [simp]: "split_on c s \<noteq> []"
  by (induction s) (auto split: list.splits)

lemma split_on_no_sep: "c \<notin> set s \<Longrightarrow> split_on c s = [s]"
  by (induction s) auto

lemma concat_dot_pieces: "concat (map ((#) c) (split_on c s)) = c # s"
  by (induction s) (auto split: list.splits)

lemma concat_tl_pieces:
  "concat (map ((#) c) (tl (split_on c s))) = dropWhile (\<lambda>x. x \<noteq> c) s"
proof (induction s)
  case Nil
  show ?case by simp
next
  case (Cons x s)
  show ?case
  proof (cases "x = c")
    case True
    then show ?thesis by (simp add: concat_dot_pieces)
  next
    case False
    then show ?thesis using Cons by (auto split: list.splits)
  qed
qed

lemma path_name_plain:
  "os_sep \<notin> set f \<Longrightarrow> f \<noteq> [] \<Longrightarrow> f \<noteq> ''.'' \<Longrightarrow> path_name f = f"
  by (simp add: path_name_def split_on_no_sep)

lemma endswith_single: "endswith s [c] \<longleftrightarrow> s \<noteq> [] \<and> last s = c"
  by (cases s rule: rev_cases) (simp_all add: endswith_def)

lemma set_split_on: "p \<in> set (split_on c s) \<Longrightarrow> set p \<subseteq> set s"
  by (induction s arbitrary: p) (fastforce split: if_splits list.splits)+

lemma set_path_name: "set (path_name f) \<subseteq> set f"
proof (cases "rev (filter (\<lambda>x. x \<noteq> [] \<and> x \<noteq> ''.'') (split_on os_sep f))")
  case Nil
  then show ?thesis by (simp add: path_name_def)
next
  case (Cons x xs)
  then have "x \<in> set (rev (filter (\<lambda>x. x \<noteq> [] \<and> x \<noteq> ''.'') (split_on os_sep f)))"
    by simp
  then have "x \<in> set (split_on os_sep f)" by simp
  then have "set x \<subseteq> set f" by (rule set_split_on)
  then show ?thesis using Cons by (simp add: path_name_def)
qed

lemma suffix_chain:
  "concat (suffixes fname) =
     (if endswith (path_name fname) ''.'' then []
      else dropWhile (\<lambda>x. x \<noteq> CHR ''.'') (lstrip_dots (path_name fname)))"
  by (simp add: suffixes_def Let_def concat_tl_pieces)

lemma suffix_chain_stem:
  assumes "x \<noteq> []" "CHR ''.'' \<notin> set x" "os_sep \<notin> set x" "os_sep \<notin> set e" "e \<noteq> []" "CHR ''.'' \<noteq> last e"
  shows "concat (suffixes (x @ CHR ''.'' # e)) = CHR ''.'' # e"
proof -
  have os: "os_sep \<noteq> CHR ''.''" by (simp add: os_sep_def)
  have n: "path_name (x @ CHR ''.'' # e) = x @ CHR ''.'' # e"
    using assms os by (intro path_name_plain) (auto simp: append_eq_Cons_conv)
  have e: "\<not> endswith (x @ CHR ''.'' # e) ''.''"
    using assms by (simp add: endswith_single)
  have l: "lstrip_dots (x @ CHR ''.'' # e) = x @ CHR ''.'' # e"
    using assms by (cases x) (auto simp: lstrip_dots_def)
  have d: "dropWhile (\<lambda>c. c \<noteq> CHR ''.'') (x @ CHR ''.'' # e) = CHR ''.'' # e"
    using assms by (subst dropWhile_append2) auto
  show ?thesis by (simp add: suffix_chain n e l d)
qed

lemma no_dot_not_nifti: "CHR ''.'' \<notin> set fname \<Longrightarrow> \<not> is_nifti_filename fname"
proof -
  assume "CHR ''.'' \<notin> set fname"
  then have nd: "CHR ''.'' \<notin> set (path_name fname)" using set_path_name by blast
  then have "lstrip_dots (path_name fname) = path_name fname"
    by (cases "path_name fname") (auto simp: lstrip_dots_def)
  moreover have "dropWhile (\<lambda>x. x \<noteq> CHR ''.'') (path_name fname) = []"
    using nd by (auto simp: dropWhile_eq_Nil_conv)
  ultimately have e: "concat (suffixes fname) = []" by (simp add: suffix_chain)
  show ?thesis unfolding is_nifti_filename_def Let_def e by (simp add: lower_def endswith_def)
qed

lemma lower_eval: "lower [] = []" "lower (c # cs) = lower_char c # lower cs"
  by (simp_all add: lower_def)

lemma endswith_Cons:
  "endswith (y # ys) suf \<longleftrightarrow> y # ys = suf \<or> endswith ys suf"
proof (cases "length suf \<le> length ys")
  case True
  then have "Suc (length ys) - length suf = Suc (length ys - length suf)" by simp
  moreover have "y # ys \<noteq> suf" using True by auto
  ultimately show ?thesis using True by (simp add: endswith_def)
next
  case False
  then show ?thesis by (auto simp: endswith_def)
qed

lemma endswith_dropWhile:
  assumes "\<And>x. f x = f c \<Longrightarrow> x = c"
  shows "endswith (map f (dropWhile (\<lambda>x. x \<noteq> c) xs)) (f c # rest) \<longleftrightarrow>
         endswith (map f xs) (f c # rest)"
proof (induction xs)
  case Nil
  show ?case by simp
next
  case (Cons x xs)
  show ?case
  proof (cases "x = c")
    case True
    then show ?thesis by simp
  next
    case False
    then have "f x \<noteq> f c" using assms by blast
    then show ?thesis using False Cons by (simp add: endswith_Cons)
  qed
qed

lemma lower_char_dot: "lower_char x = lower_char (CHR ''.'') \<Longrightarrow> x = CHR ''.''"
  by (auto simp: lower_char_def split: if_splits)

lemma lower_char_dot_eq: "lower_char (CHR ''.'') = CHR ''.''"
  by (simp add: lower_char_def)

lemma endswith_last: "endswith s (suf @ [c]) \<Longrightarrow> s \<noteq> [] \<and> last s = c"
proof -
  assume a: "endswith s (suf @ [c])"
  then have "s = take (length s - length (suf @ [c])) s @ suf @ [c]"
    unfolding endswith_def by (metis append_take_drop_id)
  then have "s = (take (length s - length (suf @ [c])) s @ suf) @ [c]" by simp
  then show ?thesis by (metis snoc_eq_iff_butlast)
qed

lemma is_nifti_filename_by_name:
  "is_nifti_filename fname \<longleftrightarrow>
     endswith (lower (lstrip_dots (path_name fname))) ''.nii'' \<or>
     endswith (lower (lstrip_dots (path_name fname))) ''.nii.gz''"
proof (cases "endswith (path_name fname) ''.''")
  case True
  let ?m = "lstrip_dots (path_name fname)"
  have l: "?m = [] \<or> last ?m = CHR ''.''"
  proof (cases "?m = []")
    case True
    then show ?thesis by simp
  next
    case False
    obtain pre where "path_name fname = pre @ ?m"
      unfolding lstrip_dots_def by (metis takeWhile_dropWhile_id)
    then have "last (path_name fname) = last ?m" using False by (metis last_appendR)
    then show ?thesis using True by (simp add: endswith_single)
  qed
  have "\<not> endswith (lower ?m) (suf @ [c])" if "c \<noteq> CHR ''.''" and "lower_char c = c" for suf c
  proof
    assume "endswith (lower ?m) (suf @ [c])"
    then have e: "lower ?m \<noteq> [] \<and> last (lower ?m) = c" by (rule endswith_last)
    then have "?m \<noteq> []" by (auto simp: lower_def)
    then have "last (lower ?m) = lower_char (CHR ''.'')" using l by (simp add: lower_def last_map)
    then show False using e that by (simp add: lower_char_dot_eq)
  qed
  from this [of "CHR ''i''" "''.ni''"] this [of "CHR ''z''" "''.nii.g''"]
  have "\<not> endswith (lower ?m) ''.nii''" "\<not> endswith (lower ?m) ''.nii.gz''"
    by (simp_all add: lower_char_def)
  moreover have "\<not> is_nifti_filename fname"
    using True by (simp add: is_nifti_filename_def Let_def suffixes_def lower_def endswith_def)
  ultimately show ?thesis by blast
next
  case False
  have "endswith (lower (dropWhile (\<lambda>x. x \<noteq> CHR ''.'') xs)) (CHR ''.'' # rest) \<longleftrightarrow>
        endswith (lower xs) (CHR ''.'' # rest)" for xs rest
    using endswith_dropWhile [of lower_char "CHR ''.''" xs rest] lower_char_dot
    by (simp add: lower_def lower_char_dot_eq)
  then show ?thesis using False by (simp add: is_nifti_filename_def Let_def suffix_chain)
qed

lemma rfind_absent: "c \<notin> set s \<Longrightarrow> rfind s c = - 1"
proof -
  assume a: "c \<notin> set s"
  have "\<forall>i<length s. s ! i \<noteq> c" using a nth_mem by metis
  then have "filter (\<lambda>i. s ! i = c) (rev [0..<length s]) = []"
    by (simp add: filter_empty_conv)
  then show ?thesis by (simp add: rfind_def)
qed

lemma rfind_last:
  assumes "c \<notin> set ys"
  shows "rfind (xs @ c # ys) c = int (length xs)"
proof -
  let ?s = "xs @ c # ys"
  have "[0..<length ?s] = [0..<length xs] @ [length xs..<length ?s]"
    using upt_add_eq_append [of 0 "length xs" "Suc (length ys)"] by simp
  moreover have "[length xs..<length ?s] = length xs # [Suc (length xs)..<length ?s]"
    by (rule upt_conv_Cons) simp
  ultimately have u: "[0..<length ?s] = [0..<length xs] @ length xs # [Suc (length xs)..<length ?s]"
    by simp
  have "\<forall>i\<in>set [Suc (length xs)..<length ?s]. ?s ! i \<noteq> c"
  proof
    fix i assume "i \<in> set [Suc (length xs)..<length ?s]"
    then have i: "Suc (length xs) \<le> i" "i < Suc (length xs) + length ys" by auto
    then have "?s ! i = ys ! (i - Suc (length xs))"
      by (simp add: nth_append nth_Cons')
    moreover have "ys ! (i - Suc (length xs)) \<in> set ys" using i by (intro nth_mem) arith
    ultimately show "?s ! i \<noteq> c" using assms by metis
  qed
  then have "filter (\<lambda>i. ?s ! i = c) (rev [Suc (length xs)..<length ?s]) = []"
    by (simp add: filter_empty_conv)
  then have "filter (\<lambda>i. ?s ! i = c) (rev [0..<length ?s]) =
        length xs # filter (\<lambda>i. ?s ! i = c) (rev [0..<length xs])"
    unfolding u by simp
  then show ?thesis unfolding rfind_def by simp
qed

lemma splitext_last_dot:
  assumes "os_sep \<notin> set stem" "os_sep \<notin> set e" "CHR ''.'' \<notin> set e" "\<exists>c\<in>set stem. c \<noteq> CHR ''.''"
  shows "splitext (stem @ CHR ''.'' # e) = (stem, CHR ''.'' # e)"
proof -
  let ?p = "stem @ CHR ''.'' # e"
  have "os_sep \<notin> set ?p" using assms by (simp add: os_sep_def)
  then have s: "rfind ?p os_sep = - 1" by (rule rfind_absent)
  have d: "rfind ?p extsep = int (length stem)"
    unfolding extsep_def using assms(3) by (rule rfind_last)
  obtain i where i: "i < length stem" "stem ! i \<noteq> CHR ''.''"
    using assms(4) by (metis in_set_conv_nth)
  then have "?p ! i \<noteq> extsep" by (simp add: nth_append extsep_def)
  then have "list_ex (\<lambda>i. ?p ! i \<noteq> extsep) [0..<length stem]"
    using i(1) by (auto simp: list_ex_iff)
  then show ?thesis by (simp add: splitext_def Let_def s d)
qed

lemma splitext_leading_dots:
  assumes "os_sep \<notin> set stem" "os_sep \<notin> set e" "CHR ''.'' \<notin> set e" "\<forall>c\<in>set stem. c = CHR ''.''"
  shows "splitext (stem @ CHR ''.'' # e) = (stem @ CHR ''.'' # e, [])"
proof -
  let ?p = "stem @ CHR ''.'' # e"
  have d: "rfind ?p extsep = int (length stem)"
    unfolding extsep_def using assms(3) by (rule rfind_last)
  have "\<forall>i<length stem. ?p ! i = extsep"
    using assms(4) by (simp add: nth_append extsep_def)
  then have "\<not> list_ex (\<lambda>i. ?p ! i \<noteq> extsep) [0..<length stem]"
    by (simp add: list_ex_iff)
  moreover have "0 \<le> rfind ?p os_sep + 1" by (simp add: rfind_def split: list.splits)
  moreover have "[nat (rfind ?p os_sep + 1)..<length stem] = [] \<or>
      set [nat (rfind ?p os_sep + 1)..<length stem] \<subseteq> set [0..<length stem]" by auto
  ultimately have "\<not> list_ex (\<lambda>i. ?p ! i \<noteq> extsep) [nat (rfind ?p os_sep + 1)..<length stem]"
    by (auto simp: list_ex_iff)
  then show ?thesis by (simp add: splitext_def Let_def d)
qed

lemma final_dot_suffix_last:
  "CHR ''.'' \<notin> set e \<Longrightarrow> final_dot_suffix (stem @ CHR ''.'' # e) = CHR ''.'' # e"
proof -
  assume a: "CHR ''.'' \<notin> set e"
  have "rev (stem @ CHR ''.'' # e) = rev e @ CHR ''.'' # rev stem" by simp
  moreover have "takeWhile (\<lambda>c. c \<noteq> CHR ''.'') (rev e @ CHR ''.'' # rev stem) = rev e"
    using a by (subst takeWhile_append2) auto
  ultimately show ?thesis by (simp add: final_dot_suffix_def)
qed

lemma ext_key_by_stem:
  assumes "os_sep \<notin> set stem" "os_sep \<notin> set e" "CHR ''.'' \<notin> set e"
  shows "ext_key (stem @ CHR ''.'' # e) =
         (if \<exists>c\<in>set stem. c \<noteq> CHR ''.'' then lower (CHR ''.'' # e) else [])"
proof (cases "\<exists>c\<in>set stem. c \<noteq> CHR ''.''")
  case True
  then show ?thesis using assms by (simp add: splitext_last_dot)
next
  case False
  then have "\<forall>c\<in>set stem. c = CHR ''.''" by blast
  then have "splitext (stem @ CHR ''.'' # e) = (stem @ CHR ''.'' # e, [])"
    using assms by (intro splitext_leading_dots)
  then show ?thesis using False by (simp add: lower_def)
qed

section \<open>The subject status classifier\<close>

text \<open>
  Claim C2.  The status is a function of the three counts alone.  For counts that are not
  negative it is \<^verbatim>\<open>Processed\<close> exactly when the \<^verbatim>\<open>.mat\<close> count is positive, whatever
  the other two are; \<^verbatim>\<open>Not Processed\<close> exactly when the \<^verbatim>\<open>.mat\<close> count is not positive
  and the \<^verbatim>\<open>.dat\<close> or the \<^verbatim>\<open>.ima\<close> count is; \<^verbatim>\<open>Unknown\<close> exactly when none of the
  three is positive.  The three labels differ, so exactly one is produced.
\<close>

theorem subject_status_of_three_way:
  assumes "0 \<le> mat" and "0 \<le> dat" and "0 \<le> ima"
  shows "(subject_status_of mat dat ima = ''Processed'' \<longleftrightarrow> mat > 0) \<and>
         (subject_status_of mat dat ima = ''Not Processed'' \<longleftrightarrow>
            \<not> mat > 0 \<and> (dat > 0 \<or> ima > 0)) \<and>
         (subject_status_of mat dat ima = ''Unknown'' \<longleftrightarrow>
            \<not> mat > 0 \<and> \<not> (dat > 0 \<or> ima > 0)) \<and>
         subject_status_of mat dat ima \<in> {''Processed'', ''Not Processed'', ''Unknown''} \<and>
         distinct [''Processed'', ''Not Processed'', ''Unknown'']"
  using assms by (auto simp: subject_status_of_def)

theorem subject_status_of_three_way_witness:
  "subject_status_of 1 5 0 = ''Processed'' \<and>
   subject_status_of 0 0 2 = ''Not Processed'' \<and>
   subject_status_of 0 0 0 = ''Unknown''"
  using subject_status_of_three_way [of 1 5 0] subject_status_of_three_way [of 0 0 2]
    subject_status_of_three_way [of 0 0 0]
  by simp

section \<open>The NIfTI predicate\<close>

text \<open>
  Claim C3.  \<^const>\<open>is_nifti_filename\<close> holds exactly when the concatenation of the
  suffixes of the name, in lower case, ends with \<^verbatim>\<open>.nii\<close> or \<^verbatim>\<open>.nii.gz\<close>; that is,
  when the name itself, without its leading dots and in lower case, ends so.  For every
  stem \<open>x\<close> (not empty, without dot or separator) the names \<^verbatim>\<open>x.nii\<close>, \<^verbatim>\<open>x.NII.GZ\<close> and
  \<^verbatim>\<open>x.nii.gz\<close> are NIfTI and \<^verbatim>\<open>x.gz\<close> and \<^verbatim>\<open>x.niix\<close> are not; a name without a dot
  is never NIfTI.
\<close>

theorem is_nifti_filename_suffix_chain:
  "(is_nifti_filename fname \<longleftrightarrow>
      endswith (lower (concat (suffixes fname))) ''.nii'' \<or>
      endswith (lower (concat (suffixes fname))) ''.nii.gz'') \<and>
   (is_nifti_filename fname \<longleftrightarrow>
      endswith (lower (lstrip_dots (path_name fname))) ''.nii'' \<or>
      endswith (lower (lstrip_dots (path_name fname))) ''.nii.gz'') \<and>
   (x \<noteq> [] \<and> CHR ''.'' \<notin> set x \<and> os_sep \<notin> set x \<longrightarrow>
      is_nifti_filename (x @ ''.nii'') \<and> is_nifti_filename (x @ ''.NII.GZ'') \<and>
      is_nifti_filename (x @ ''.nii.gz'') \<and>
      \<not> is_nifti_filename (x @ ''.gz'') \<and> \<not> is_nifti_filename (x @ ''.niix'')) \<and>
   (CHR ''.'' \<notin> set fname \<longrightarrow> \<not> is_nifti_filename fname)"
proof (intro conjI impI)
  show "is_nifti_filename fname \<longleftrightarrow>
      endswith (lower (concat (suffixes fname))) ''.nii'' \<or>
      endswith (lower (concat (suffixes fname))) ''.nii.gz''"
    by (simp add: is_nifti_filename_def Let_def)
next
  show "is_nifti_filename fname \<longleftrightarrow>
      endswith (lower (lstrip_dots (path_name fname))) ''.nii'' \<or>
      endswith (lower (lstrip_dots (path_name fname))) ''.nii.gz''"
    by (rule is_nifti_filename_by_name)
next
  assume "CHR ''.'' \<notin> set fname"
  then show "\<not> is_nifti_filename fname" by (rule no_dot_not_nifti)
next
  assume a: "x \<noteq> [] \<and> CHR ''.'' \<notin> set x \<and> os_sep \<notin> set x"
  have c: "concat (suffixes (x @ CHR ''.'' # e)) = CHR ''.'' # e"
    if "e \<in> {''nii'', ''NII.GZ'', ''nii.gz'', ''gz'', ''niix''}" for e
    using a that by (intro suffix_chain_stem) (auto simp: os_sep_def)
  show "is_nifti_filename (x @ ''.nii'')"
    using c [of "''nii''"] by (simp add: is_nifti_filename_def Let_def lower_eval lower_char_def endswith_def)
  show "is_nifti_filename (x @ ''.NII.GZ'')"
    using c [of "''NII.GZ''"] by (simp add: is_nifti_filename_def Let_def lower_eval lower_char_def endswith_def)
  show "is_nifti_filename (x @ ''.nii.gz'')"
    using c [of "''nii.gz''"] by (simp add: is_nifti_filename_def Let_def lower_eval lower_char_def endswith_def)
  show "\<not> is_nifti_filename (x @ ''.gz'')"
    using c [of "''gz''"] by (simp add: is_nifti_filename_def Let_def lower_eval lower_char_def endswith_def)
  show "\<not> is_nifti_filename (x @ ''.niix'')"
    using c [of "''niix''"] by (simp add: is_nifti_filename_def Let_def lower_eval lower_char_def endswith_def)
qed

theorem is_nifti_filename_suffix_chain_witness:
  "is_nifti_filename ''x.nii'' \<and> is_nifti_filename ''x.NII.GZ'' \<and>
   is_nifti_filename ''x.nii.gz'' \<and> \<not> is_nifti_filename ''x.gz'' \<and>
   \<not> is_nifti_filename ''x.niix'' \<and> \<not> is_nifti_filename ''README''"
  using is_nifti_filename_suffix_chain [of "''README''" "''x''"] by (auto simp: os_sep_def)

section \<open>Counters\<close>

lemma map_of_counter_add:
  "map_of (counter_add c k n) = (map_of c)(k \<mapsto> counter_get c k + n)"
  by (simp add: counter_add_def update_conv')

lemma counter_get_counter_add:
  "counter_get (counter_add c k n) k' = counter_get c k' + (if k' = k then n else 0)"
  by (simp add: counter_get_def map_of_counter_add)

lemma keys_counter_add: "fst ` set (counter_add c k n) = insert k (fst ` set c)"
  by (simp add: counter_add_def dom_update)

lemma distinct_counter_add:
  "distinct (map fst c) \<Longrightarrow> distinct (map fst (counter_add c k n))"
  by (simp add: counter_add_def distinct_update)

lemma sum_values_update:
  "sum_values (AList.update k v c) = sum_values c - counter_get c k + v"
  by (induction c) (auto simp: sum_values_def counter_get_def)

lemma sum_values_counter_add: "sum_values (counter_add c k n) = sum_values c + n"
  by (simp add: counter_add_def sum_values_update)

lemma sum_values_fold_add:
  "sum_values (fold (\<lambda>x c. counter_add c (k x) (n x)) xs c) = sum_values c + sum_list (map n xs)"
  by (induction xs arbitrary: c) (simp_all add: sum_values_counter_add)

lemma counter_get_fold_add:
  "counter_get (fold (\<lambda>x c. counter_add c (k x) (n x)) xs c) key =
     counter_get c key + sum_list (map n (filter (\<lambda>x. k x = key) xs))"
  by (induction xs arbitrary: c) (auto simp: counter_get_counter_add)

lemma keys_fold_add:
  "map fst (fold (\<lambda>x c. counter_add c (k x) (n x)) xs c) =
     map fst c @ filter (\<lambda>y. y \<notin> fst ` set c) (first_seen (map k xs))"
proof (induction xs arbitrary: c)
  case Nil
  show ?case by simp
next
  case (Cons x xs)
  show ?case
  proof (cases "k x \<in> fst ` set c")
    case True
    then have "map fst (counter_add c (k x) (n x)) = map fst c"
      by (simp add: counter_add_def update_keys)
    moreover have "fst ` set (counter_add c (k x) (n x)) = fst ` set c"
      using True by (auto simp: keys_counter_add)
    moreover have "filter (\<lambda>y. y \<notin> fst ` set c) (filter (\<lambda>z. z \<noteq> k x) ys) = filter (\<lambda>y. y \<notin> fst ` set c) ys" for ys
      using True by (auto intro: filter_cong)
    ultimately show ?thesis using True by (simp add: Cons)
  next
    case False
    then have "map fst (counter_add c (k x) (n x)) = map fst c @ [k x]"
      by (simp add: counter_add_def update_keys)
    moreover have "fst ` set (counter_add c (k x) (n x)) = insert (k x) (fst ` set c)"
      by (simp add: keys_counter_add)
    moreover have "filter (\<lambda>y. y \<notin> insert (k x) (fst ` set c)) ys = filter (\<lambda>y. y \<notin> fst ` set c) (filter (\<lambda>z. z \<noteq> k x) ys)" for ys
      by (auto intro: filter_cong)
    ultimately show ?thesis using False by (simp add: Cons)
  qed
qed

lemma set_first_seen: "set (first_seen xs) = set xs"
  by (induction xs) auto

lemma distinct_first_seen: "distinct (first_seen xs)"
  by (induction xs) (auto simp: set_first_seen)

lemma length_first_seen: "length (first_seen xs) = card (set xs)"
  using distinct_card [OF distinct_first_seen, of xs] by (simp add: set_first_seen)

lemma distinct_fold_add:
  "distinct (map fst c) \<Longrightarrow> distinct (map fst (fold (\<lambda>x c. counter_add c (k x) (n x)) xs c))"
  by (induction xs arbitrary: c) (simp_all add: distinct_counter_add)

lemma sum_filter_key:
  "distinct (map fst c) \<Longrightarrow> sum_list (map snd (filter (\<lambda>item. fst item = key) c)) = counter_get c key"
proof (induction c)
  case Nil
  show ?case by (simp add: counter_get_def)
next
  case (Cons p c)
  show ?case
  proof (cases "fst p = key")
    case True
    have "fst p \<notin> fst ` set c" using Cons.prems by simp
    then have "\<forall>item\<in>set c. fst item \<noteq> key" using True by (metis imageI)
    then have "filter (\<lambda>item. fst item = key) c = []" by (simp add: filter_empty_conv)
    with True show ?thesis by (cases p) (simp add: counter_get_def)
  next
    case False
    with Cons show ?thesis by (cases p) (simp add: counter_get_def)
  qed
qed

lemma map_of_fold_add:
  "map_of (fold (\<lambda>x c. counter_add c (k x) (n x)) xs c) =
     fold (\<lambda>x m. m(k x \<mapsto> (case m (k x) of None \<Rightarrow> 0 | Some v \<Rightarrow> v) + n x)) xs (map_of c)"
  by (induction xs arbitrary: c) (simp_all add: map_of_counter_add counter_get_def)

lemma sum_list_mset_cong:
  fixes f :: "'a \<Rightarrow> 'b::comm_monoid_add"
  assumes "mset xs = mset ys"
  shows "sum_list (map f xs) = sum_list (map f ys)"
proof -
  have "sum_list (map f xs) = sum_mset (mset (map f xs))" by (simp only: sum_mset_sum_list)
  also have "\<dots> = sum_mset (mset (map f ys))" using assms by simp
  also have "\<dots> = sum_list (map f ys)" by (simp only: sum_mset_sum_list)
  finally show ?thesis .
qed

lemma map_of_fold_add_mset:
  assumes "mset xs = mset ys"
  shows "map_of (fold (\<lambda>x c. counter_add c (k x) (n x)) xs c) =
         map_of (fold (\<lambda>x c. counter_add c (k x) (n x)) ys c)"
proof -
  let ?madd = "\<lambda>x (m :: 'b \<Rightarrow> int option). m(k x \<mapsto> (case m (k x) of None \<Rightarrow> 0 | Some v \<Rightarrow> v) + n x)"
  have "?madd x \<circ> ?madd y = ?madd y \<circ> ?madd x" for x y
    by (auto simp: fun_eq_iff)
  then have "fold ?madd xs = fold ?madd ys"
    using assms by (intro fold_multiset_equiv) auto
  then show ?thesis by (simp add: map_of_fold_add)
qed

lemma max_or_0_Max: "xs \<noteq> [] \<Longrightarrow> max_or_0 xs = Max (set xs)"
proof (cases xs)
  case Nil
  assume "xs \<noteq> []"
  with Nil show ?thesis by simp
next
  case (Cons a list)
  show ?thesis unfolding Cons max_or_0.simps by (rule Max.set_eq_fold [symmetric])
qed

lemma max_or_0_set: "set xs = set ys \<Longrightarrow> max_or_0 xs = max_or_0 ys"
proof (cases "xs = []")
  case True
  assume "set xs = set ys"
  with True show ?thesis by simp
next
  case False
  assume s: "set xs = set ys"
  with False have "ys \<noteq> []" by auto
  with False s show ?thesis by (simp add: max_or_0_Max)
qed

lemma max_or_0_keys:
  assumes "map_of c = map_of c'"
  shows "max_or_0 (map fst c) = max_or_0 (map fst c')"
proof -
  have "fst ` set c = fst ` set c'"
    using assms by (metis dom_map_of_conv_image_fst)
  then show ?thesis by (intro max_or_0_set) simp
qed

lemma most_common_length: "length (most_common n c) \<le> n"
  by (simp add: most_common_def)

lemma most_common_length_eq: "length (most_common n c) = min n (length c)"
  by (simp add: most_common_def min.commute)

lemma set_most_common: "set (most_common n c) \<subseteq> set c"
  unfolding most_common_def using set_take_subset [of n "sort_key (\<lambda>item. - snd item) c"] by simp

lemma most_common_omitted:
  "\<exists>omitted. mset c = mset (most_common n c) + mset omitted \<and>
     (\<forall>item\<in>set omitted. \<forall>listed\<in>set (most_common n c). snd item \<le> snd listed)"
proof -
  let ?xs = "sort_key (\<lambda>item. - snd item) c"
  have "sorted (map (\<lambda>item. - snd item) ?xs)" by (rule sorted_sort_key)
  then have "sorted_wrt (\<lambda>a b. snd b \<le> snd a) ?xs"
    by (simp add: sorted_map)
  then have "sorted_wrt (\<lambda>a b. snd b \<le> snd a) (take n ?xs @ drop n ?xs)" by simp
  then have o: "\<forall>listed\<in>set (take n ?xs). \<forall>item\<in>set (drop n ?xs). snd item \<le> snd listed"
    unfolding sorted_wrt_append by blast
  have "mset c = mset ?xs" by simp
  also have "\<dots> = mset (take n ?xs @ drop n ?xs)" by simp
  also have "\<dots> = mset (take n ?xs) + mset (drop n ?xs)" by (rule mset_append)
  finally have "mset c = mset (most_common n c) + mset (drop n ?xs)"
    by (simp only: most_common_def)
  moreover have "\<forall>item\<in>set (drop n ?xs). \<forall>listed\<in>set (most_common n c). snd item \<le> snd listed"
    using o by (simp only: most_common_def) blast
  ultimately show ?thesis by blast
qed

lemma most_common_sorted: "sorted_wrt (\<lambda>a b. snd a \<ge> snd b) (most_common n c)"
proof -
  have "sorted (map (\<lambda>item. - snd item) (sort_key (\<lambda>item. - snd item) c))"
    by (rule sorted_sort_key)
  then have "sorted_wrt (\<lambda>a b. snd a \<ge> snd b) (sort_key (\<lambda>item. - snd item) c)"
    by (simp add: sorted_map sorted_wrt_iff_nth_less)
  then show ?thesis unfolding most_common_def by (rule sorted_wrt_take)
qed

lemma filter_take_prefix: "\<exists>rest. filter P xs = filter P (take n xs) @ rest"
  by (metis append_take_drop_id filter_append)

lemma most_common_ties:
  "\<exists>rest. filter (\<lambda>item. snd item = k) c = filter (\<lambda>item. snd item = k) (most_common n c) @ rest"
proof -
  have "filter (\<lambda>item. - snd item = - k) (sort_key (\<lambda>item. - snd item) c) = filter (\<lambda>item. - snd item = - k) c"
    by (rule sort_key_stable)
  then have "filter (\<lambda>item. snd item = k) (sort_key (\<lambda>item. - snd item) c) = filter (\<lambda>item. snd item = k) c"
    by simp
  then show ?thesis unfolding most_common_def using filter_take_prefix by metis
qed

lemma most_common_counts:
  assumes "distinct (map fst c)" "distinct (map fst c')" "map_of c = map_of c'"
  shows "map snd (most_common n c) = map snd (most_common n c')"
proof -
  have "set c = set c'" using assms 
    by (metis map_of_inject_set)
  moreover have "distinct c" "distinct c'" using assms by (auto simp: distinct_map)
  ultimately have "mset c = mset c'" by (simp add: set_eq_iff_mset_eq_distinct)
  then have m: "mset (sort (map (\<lambda>item. - snd item) c')) = mset (map (\<lambda>item. - snd item) c)" by simp
  have k: "sort (map f xs) = map f (sort_key f xs)" for f :: "'a \<times> int \<Rightarrow> int" and xs
    by (rule properties_for_sort) simp_all
  have "sort (map (\<lambda>item. - snd item) c) = sort (map (\<lambda>item. - snd item) c')"
    using m by (rule properties_for_sort) simp
  then have "map (\<lambda>item. - snd item) (sort_key (\<lambda>item. - snd item) c) = map (\<lambda>item. - snd item) (sort_key (\<lambda>item. - snd item) c')"
    by (simp only: k)
  then have "map uminus (map (\<lambda>item. - snd item) (sort_key (\<lambda>item. - snd item) c)) =
      map uminus (map (\<lambda>item. - snd item) (sort_key (\<lambda>item. - snd item) c'))"
    by (rule arg_cong)
  then have "map snd (sort_key (\<lambda>item. - snd item) c) = map snd (sort_key (\<lambda>item. - snd item) c')"
    by (simp add: comp_def)
  then show ?thesis unfolding most_common_def take_map [symmetric] by simp
qed

section \<open>The scan in closed form\<close>

subsection \<open>The record of one directory\<close>

lemma fold_file_step_file_types:
  "fa_file_types (fold file_step files a) = fold (\<lambda>file c. counter_add c (ext_key file) 1) files (fa_file_types a)"
  by (induction files arbitrary: a) (simp_all add: file_step_def Let_def)

lemma fold_file_step_all:
  "fa_all_files_by_type (fold file_step files a) = fold (\<lambda>file c. counter_add c (ext_key file) 1) files (fa_all_files_by_type a)"
  by (induction files arbitrary: a) (simp_all add: file_step_def Let_def)

lemma fold_file_step_dicom:
  "dicom_count (fold file_step files a) = dicom_count a + int (length (filter (\<lambda>file. ext_key file \<in> {''.dcm'', ''.ima''}) files))"
  by (induction files arbitrary: a) (simp_all add: file_step_def Let_def)

lemma fold_file_step_dat:
  "dat_count (fold file_step files a) = dat_count a + int (length (filter (\<lambda>file. ext_key file = ''.dat'') files))"
  by (induction files arbitrary: a) (simp_all add: file_step_def Let_def)

lemma fold_file_step_nifti:
  "nifti_count (fold file_step files a) = nifti_count a + int (length (filter is_nifti_filename files))"
  by (induction files arbitrary: a) (simp_all add: file_step_def Let_def)

lemma make_folder_info_count_files:
  "make_folder_info w (count_files (w_files w) c) = folder_record w"
  by (simp add: folder_record_def make_folder_info_def count_files_def fold_file_step_file_types
      fold_file_step_dicom fold_file_step_dat fold_file_step_nifti)

lemma folder_record_fields:
  "path (folder_record w) = w_rel_path w"
  "depth (folder_record w) = depth_of (w_rel_path w)"
  "num_files (folder_record w) = int (length (w_files w))"
  "num_subfolders (folder_record w) = int (length (w_dirs w))"
  "file_types (folder_record w) = fold (\<lambda>file c. counter_add c (ext_key file) 1) (w_files w) []"
  "dicom_files (folder_record w) = int (length (filter (\<lambda>file. ext_key file \<in> {''.dcm'', ''.ima''}) (w_files w)))"
  "dat_files (folder_record w) = int (length (filter (\<lambda>file. ext_key file = ''.dat'') (w_files w)))"
  "nifti_files (folder_record w) = int (length (filter is_nifti_filename (w_files w)))"
  by (simp_all add: folder_record_def make_folder_info_def count_files_def fold_file_step_file_types
      fold_file_step_dicom fold_file_step_dat fold_file_step_nifti)

lemma sum_values_file_types: "sum_values (file_types (folder_record w)) = num_files (folder_record w)"
  using sum_values_fold_add [where k = ext_key and n = "\<lambda>_. 1" and xs = "w_files w" and c = "[]"]
  by (simp add: folder_record_fields sum_values_def sum_list_triv)

lemma counter_get_file_types:
  "counter_get (file_types (folder_record w)) key = int (length (filter (\<lambda>file. ext_key file = key) (w_files w)))"
  using counter_get_fold_add [where k = ext_key and n = "\<lambda>_. 1" and c = "[]" and xs = "w_files w" and key = key]
  by (simp add: folder_record_fields counter_get_def sum_list_triv)

lemma distinct_file_types: "distinct (map fst (file_types (folder_record w)))"
  using distinct_fold_add [where k = ext_key and n = "\<lambda>_. 1" and c = "[]" and xs = "w_files w"]
  by (simp add: folder_record_fields)

lemma splitext_no_dot: "CHR ''.'' \<notin> set file \<Longrightarrow> snd (splitext file) = []"
proof -
  assume a: "CHR ''.'' \<notin> set file"
  have "\<forall>i<length file. file ! i \<noteq> CHR ''.''" using a nth_mem by metis
  then have "filter (\<lambda>i. file ! i = CHR ''.'') (rev [0..<length file]) = []"
    by (simp add: filter_empty_conv)
  then have d: "rfind file extsep = - 1" by (simp add: rfind_def extsep_def)
  have "- 1 \<le> rfind file os_sep" by (simp add: rfind_def split: list.splits)
  then show ?thesis by (simp add: splitext_def Let_def d)
qed

lemma count_files_all:
  "fa_all_files_by_type (count_files files c) = fold (\<lambda>file c. counter_add c (ext_key file) 1) files c"
  by (simp add: count_files_def fold_file_step_all)

subsection \<open>One step and the whole walk\<close>

lemma walk_step_eq:
  "walk_step w s =
     \<lparr>st_subfolders =
        (if in_main_subfolder (current_subfolder_of (w_rel_path w)) (st_subfolders s)
         then AList.map_entry (the (current_subfolder_of (w_rel_path w))) (sf_accumulate (folder_record w)) (st_subfolders s)
         else st_subfolders s),
      st_all_folders = st_all_folders s @ [folder_record w],
      st_all_files_by_type = fold (\<lambda>file c. counter_add c (ext_key file) 1) (w_files w) (st_all_files_by_type s),
      st_total_folders = st_total_folders s + 1,
      st_total_files = st_total_files s + int (length (w_files w))\<rparr>"
  by (simp add: walk_step_def Let_def make_folder_info_count_files count_files_all)

lemma walk_step_all_folders: "st_all_folders (walk_step w s) = st_all_folders s @ [folder_record w]"
  by (simp add: walk_step_eq)

lemma in_main_subfolder_iff:
  "in_main_subfolder (current_subfolder_of p) subs \<longleftrightarrow> (\<exists>name. current_subfolder_of p = Some name \<and> name \<noteq> [] \<and> map_of subs name \<noteq> None)"
  by (auto simp: in_main_subfolder_def map_of_eq_None_iff split: option.splits)

lemma map_of_walk_step:
  "map_of (st_subfolders (walk_step w s)) name =
     map_option (\<lambda>sf. if member_of name w then sf_accumulate (folder_record w) sf else sf)
       (map_of (st_subfolders s) name)"
  by (cases "map_of (st_subfolders s) name")
     (auto simp: walk_step_eq in_main_subfolder_iff map_of_map_entry member_of_def)

lemma keys_walk_step: "map fst (st_subfolders (walk_step w s)) = map fst (st_subfolders s)"
proof -
  have "map fst (AList.map_entry k f xs) = map fst xs" for k and f :: "sf_data \<Rightarrow> sf_data" and xs :: "(string \<times> sf_data) list"
    by (induction xs) auto
  then show ?thesis by (simp add: walk_step_eq)
qed

lemma fold_walk_step_map_of:
  "map_of (st_subfolders (fold walk_step ws s)) name =
     map_option (fold sf_accumulate (map folder_record (filter (member_of name) ws)))
       (map_of (st_subfolders s) name)"
proof (induction ws arbitrary: s)
  case Nil
  show ?case by (simp add: option.map_ident)
next
  case (Cons w ws)
  show ?case by (cases "map_of (st_subfolders s) name") (simp_all add: Cons map_of_walk_step)
qed

lemma fold_walk_step_keys: "map fst (st_subfolders (fold walk_step ws s)) = map fst (st_subfolders s)"
  by (induction ws arbitrary: s) (simp_all add: keys_walk_step)

lemma fold_walk_step_globals:
  "st_all_folders (fold walk_step ws s) = st_all_folders s @ map folder_record ws"
  "st_total_folders (fold walk_step ws s) = st_total_folders s + int (length ws)"
  "st_total_files (fold walk_step ws s) = st_total_files s + sum_list (map (\<lambda>w. int (length (w_files w))) ws)"
  "st_all_files_by_type (fold walk_step ws s) = fold (\<lambda>file c. counter_add c (ext_key file) 1) (concat (map w_files ws)) (st_all_files_by_type s)"
  by (induction ws arbitrary: s) (simp_all add: walk_step_eq)

lemma make_overview_walk_step:
  "ov_total_folders (make_overview hs (walk_step w s)) = ov_total_folders (make_overview hs s) + 1"
  "ov_total_files (make_overview hs (walk_step w s)) = ov_total_files (make_overview hs s) + num_files (folder_record w)"
  "ov_total_dicom (make_overview hs (walk_step w s)) = ov_total_dicom (make_overview hs s) + dicom_files (folder_record w)"
  "ov_total_dat (make_overview hs (walk_step w s)) = ov_total_dat (make_overview hs s) + dat_files (folder_record w)"
  "ov_total_nifti (make_overview hs (walk_step w s)) = ov_total_nifti (make_overview hs s) + nifti_files (folder_record w)"
  by (simp_all add: make_overview_def walk_step_eq folder_record_fields)

lemma item_fold_eq:
  "(\<lambda>(ext, count) c. counter_add c ext count) = (\<lambda>item c. counter_add c (fst item) (snd item))"
  by (simp add: fun_eq_iff split_def)

lemma fold_sf_accumulate:
  "sf_folder_details (fold sf_accumulate fs sf) = sf_folder_details sf @ fs"
  "sf_total_folders (fold sf_accumulate fs sf) = sf_total_folders sf + int (length fs)"
  "sf_total_files (fold sf_accumulate fs sf) = sf_total_files sf + sum_list (map num_files fs)"
  "sf_dicom_files (fold sf_accumulate fs sf) = sf_dicom_files sf + sum_list (map dicom_files fs)"
  "sf_dat_files (fold sf_accumulate fs sf) = sf_dat_files sf + sum_list (map dat_files fs)"
  "sf_depth_counts (fold sf_accumulate fs sf) = fold (\<lambda>folder c. counter_add c (depth folder) 1) fs (sf_depth_counts sf)"
  "sf_file_counts (fold sf_accumulate fs sf) =
     fold (\<lambda>item c. counter_add c (fst item) (snd item)) (concat (map file_types fs)) (sf_file_counts sf)"
  "sf_path (fold sf_accumulate fs sf) = sf_path sf"
  "sf_all_folders (fold sf_accumulate fs sf) = sf_all_folders sf"
  by (induction fs arbitrary: sf) (simp_all add: sf_accumulate_def item_fold_eq)

lemma map_of_init_subfolders:
  "map_of (init_subfolders human_root human_subfolders) name =
     (if name \<in> set human_subfolders then Some (new_sf_data (os_path_join human_root name)) else None)"
proof -
  have "map_of (fold (\<lambda>subfolder d. AList.update subfolder (new_sf_data (os_path_join human_root subfolder)) d) hs d0) name =
     (if name \<in> set hs then Some (new_sf_data (os_path_join human_root name)) else map_of d0 name)" for hs d0
    by (induction hs arbitrary: d0) (auto simp: update_conv')
  then show ?thesis by (simp add: init_subfolders_def)
qed

lemma distinct_init_subfolders: "distinct (map fst (init_subfolders human_root human_subfolders))"
proof -
  have "distinct (map fst d0) \<Longrightarrow> distinct (map fst (fold (\<lambda>subfolder d. AList.update subfolder (new_sf_data (os_path_join human_root subfolder)) d) hs d0))" for hs d0
    by (induction hs arbitrary: d0) (auto simp: distinct_update)
  then show ?thesis by (simp add: init_subfolders_def)
qed

lemma keys_init_subfolders:
  "distinct human_subfolders \<Longrightarrow> map fst (init_subfolders human_root human_subfolders) = human_subfolders"
proof -
  have "distinct hs \<Longrightarrow> set hs \<inter> fst ` set d0 = {} \<Longrightarrow> map fst (fold (\<lambda>subfolder d. AList.update subfolder (new_sf_data (os_path_join human_root subfolder)) d) hs d0) = map fst d0 @ hs" for hs d0
  proof (induction hs arbitrary: d0)
    case Nil
    show ?case by simp
  next
    case (Cons h hs)
    have "set hs \<inter> fst ` set (AList.update h (new_sf_data (os_path_join human_root h)) d0) = {}"
      using Cons.prems by (auto simp: dom_update)
    with Cons show ?case by (simp add: update_keys)
  qed
  from this [of human_subfolders "[]"] show "distinct human_subfolders \<Longrightarrow> ?thesis"
    by (simp add: init_subfolders_def)
qed

lemma scan_walk_fields:
  "subfolders (scan_walk r hs ws) = st_subfolders (fold walk_step ws (init_state r hs))"
  "all_folders (scan_walk r hs ws) = map folder_record ws"
  "all_files_by_type (scan_walk r hs ws) = fold (\<lambda>file c. counter_add c (ext_key file) 1) (concat (map w_files ws)) []"
  "hd_overview (scan_walk r hs ws) =
     \<lparr>ov_total_folders = int (length ws),
      ov_total_files = sum_list (map (\<lambda>w. int (length (w_files w))) ws),
      ov_main_subfolders = int (length hs),
      ov_total_dicom = sum_list (map dicom_files (map folder_record ws)),
      ov_total_dat = sum_list (map dat_files (map folder_record ws)),
      ov_total_nifti = sum_list (map nifti_files (map folder_record ws)),
      ov_max_depth = max_or_0 (map depth (map folder_record ws))\<rparr>"
  by (simp_all add: scan_walk_def Let_def make_overview_def fold_walk_step_globals init_state_def)

lemma map_of_scan_walk:
  "map_of (subfolders (scan_walk r hs ws)) name =
     (if name \<in> set hs
      then Some (fold sf_accumulate (map folder_record (filter (member_of name) ws)) (new_sf_data (os_path_join r name)))
      else None)"
  by (simp add: scan_walk_fields fold_walk_step_map_of init_state_def map_of_init_subfolders)

lemma distinct_scan_walk: "distinct (map fst (subfolders (scan_walk r hs ws)))"
  by (simp add: scan_walk_fields fold_walk_step_keys init_state_def distinct_init_subfolders)

lemma keys_scan_walk: "distinct hs \<Longrightarrow> map fst (subfolders (scan_walk r hs ws)) = hs"
  by (simp add: scan_walk_fields fold_walk_step_keys init_state_def keys_init_subfolders)

lemma group_of_scan_walk:
  assumes "(name, sf) \<in> set (subfolders (scan_walk r hs ws))"
  shows "name \<in> set hs" 
    and "sf = fold sf_accumulate (map folder_record (filter (member_of name) ws)) (new_sf_data (os_path_join r name))"
proof -
  have "map_of (subfolders (scan_walk r hs ws)) name = Some sf"
    using assms distinct_scan_walk by (simp add: map_of_eq_Some_iff)
  then show "name \<in> set hs" 
    and "sf = fold sf_accumulate (map folder_record (filter (member_of name) ws)) (new_sf_data (os_path_join r name))"
    by (auto simp: map_of_scan_walk split: if_splits)
qed

lemma sum_values_concat_file_types:
  "sum_list (map snd (concat (map file_types (map folder_record ws)))) = sum_list (map num_files (map folder_record ws))"
  by (induction ws) (simp_all add: sum_values_file_types [unfolded sum_values_def])

lemma sum_concat_file_types:
  "sum_list (map snd (concat (map file_types (filter P (map folder_record ws))))) =
   sum_list (map num_files (filter P (map folder_record ws)))"
  by (induction ws) (simp_all add: sum_values_file_types [unfolded sum_values_def])

lemma sum_key_concat_file_types:
  "sum_list (map snd (filter (\<lambda>item. fst item = key) (concat (map file_types (filter P (map folder_record ws)))))) =
   sum_list (map (\<lambda>folder. counter_get (file_types folder) key) (filter P (map folder_record ws)))"
  by (induction ws) (simp_all add: sum_filter_key [OF distinct_file_types])

lemma group_totals_walk:
  assumes "(name, sf) \<in> set (subfolders (scan_walk r hs ws))"
  shows "sf_total_folders sf = int (length (sf_folder_details sf)) \<and>
         sum_values (sf_file_counts sf) = sf_total_files sf \<and>
         sf_total_files sf = sum_list (map num_files (sf_folder_details sf))"
proof -
  let ?ms = "filter (member_of name) ws"
  let ?fs = "map folder_record ?ms"
  have sf: "sf = fold sf_accumulate ?fs (new_sf_data (os_path_join r name))"
    by (rule group_of_scan_walk(2) [OF assms])
  have a: "sf_folder_details sf = ?fs"
    unfolding sf by (simp add: fold_sf_accumulate new_sf_data_def)
  have b: "sf_total_folders sf = int (length ?fs)"
    unfolding sf by (simp add: fold_sf_accumulate new_sf_data_def)
  have c: "sf_total_files sf = sum_list (map num_files ?fs)"
    unfolding sf by (simp add: fold_sf_accumulate new_sf_data_def)
  have "sum_values (sf_file_counts sf) = sum_list (map snd (concat (map file_types ?fs)))"
    unfolding sf fold_sf_accumulate
    using sum_values_fold_add [where k = fst and n = snd and c = "[]" and xs = "concat (map file_types ?fs)"]
    by (simp add: new_sf_data_def sum_values_def)
  then have d: "sum_values (sf_file_counts sf) = sum_list (map num_files ?fs)"
    by (simp only: sum_values_concat_file_types)
  show ?thesis by (simp only: a b c d)
qed

lemma counter_get_file_counts:
  assumes "(name, sf) \<in> set (subfolders (scan_walk r hs ws))"
  shows "counter_get (sf_file_counts sf) key =
         sum_list (map (\<lambda>folder. counter_get (file_types folder) key) (sf_folder_details sf))"
proof -
  let ?fs = "map folder_record (filter (member_of name) ws)"
  have sf: "sf = fold sf_accumulate ?fs (new_sf_data (os_path_join r name))"
    by (rule group_of_scan_walk(2) [OF assms])
  have a: "sf_folder_details sf = ?fs"
    unfolding sf by (simp add: fold_sf_accumulate new_sf_data_def)
  have "counter_get (sf_file_counts sf) key =
        sum_list (map snd (filter (\<lambda>item. fst item = key) (concat (map file_types ?fs))))"
    unfolding sf fold_sf_accumulate
    using counter_get_fold_add [where k = fst and n = snd and c = "[]" and xs = "concat (map file_types ?fs)" and key = key]
    by (simp add: new_sf_data_def counter_get_def)
  also have "\<dots> = sum_list (map (\<lambda>folder. counter_get (file_types folder) key) ?fs)"
    using sum_key_concat_file_types [of key "\<lambda>_. True" "filter (member_of name) ws"] by simp
  finally show ?thesis by (simp only: a)
qed

lemma sf_accumulate_fields:
  "sf_folder_details (sf_accumulate folder sf) = sf_folder_details sf @ [folder]"
  "sf_total_folders (sf_accumulate folder sf) = sf_total_folders sf + 1"
  "sf_total_files (sf_accumulate folder sf) = sf_total_files sf + num_files folder"
  "sf_dicom_files (sf_accumulate folder sf) = sf_dicom_files sf + dicom_files folder"
  "sf_dat_files (sf_accumulate folder sf) = sf_dat_files sf + dat_files folder"
  "sf_path (sf_accumulate folder sf) = sf_path sf"
  "counter_get (sf_depth_counts (sf_accumulate folder sf)) d =
     counter_get (sf_depth_counts sf) d + (if d = depth folder then 1 else 0)"
  by (simp_all add: sf_accumulate_def counter_get_counter_add)

lemma sf_accumulate_file_counts:
  "counter_get (sf_file_counts (sf_accumulate (folder_record w) sf)) key =
     counter_get (sf_file_counts sf) key +
     int (length (filter (\<lambda>file. ext_key file = key) (w_files w)))"
proof -
  have "counter_get (sf_file_counts (sf_accumulate (folder_record w) sf)) key =
        counter_get (sf_file_counts sf) key +
        sum_list (map snd (filter (\<lambda>item. fst item = key) (file_types (folder_record w))))"
    using counter_get_fold_add [where k = fst and n = snd and c = "sf_file_counts sf"
        and xs = "file_types (folder_record w)" and key = key]
    by (simp add: sf_accumulate_def item_fold_eq)
  then show ?thesis
    by (simp only: sum_filter_key [OF distinct_file_types] counter_get_file_types)
qed

lemma max_depth_scan_walk:
  assumes "ws \<noteq> []"
  shows "ov_max_depth (hd_overview (scan_walk r hs ws)) = Max (depth ` set (all_folders (scan_walk r hs ws)))"
proof -
  have "map depth (map folder_record ws) \<noteq> []" using assms by simp
  then have "max_or_0 (map depth (map folder_record ws)) = Max (set (map depth (map folder_record ws)))"
    by (rule max_or_0_Max)
  then show ?thesis by (simp add: scan_walk_fields image_image)
qed

lemma distinct_all_files_by_type: "distinct (map fst (all_files_by_type (scan_walk r hs ws)))"
  using distinct_fold_add [where k = ext_key and n = "\<lambda>_. 1" and c = "[]"]
  by (simp add: scan_walk_fields)

lemma keys_all_files_by_type:
  "map fst (all_files_by_type (scan_walk r hs ws)) = first_seen (map ext_key (concat (map w_files ws)))"
  using keys_fold_add [where k = ext_key and n = "\<lambda>_. 1" and c = "[]" and xs = "concat (map w_files ws)"]
  by (simp add: scan_walk_fields)

lemma length_all_files_by_type:
  "length (all_files_by_type (scan_walk r hs ws)) = card (set (map ext_key (concat (map w_files ws))))"
proof -
  have "length (all_files_by_type (scan_walk r hs ws)) = length (map fst (all_files_by_type (scan_walk r hs ws)))"
    by simp
  then show ?thesis by (simp only: keys_all_files_by_type length_first_seen)
qed

lemma items_all_files_by_type:
  assumes "(ext, n) \<in> set (all_files_by_type (scan_walk r hs ws))"
  shows "n = int (length (filter (\<lambda>file. ext_key file = ext) (concat (map w_files ws))))"
proof -
  have "map_of (all_files_by_type (scan_walk r hs ws)) ext = Some n"
    using assms distinct_all_files_by_type by (simp add: map_of_eq_Some_iff)
  then have "counter_get (all_files_by_type (scan_walk r hs ws)) ext = n"
    by (simp add: counter_get_def)
  then show ?thesis
    unfolding scan_walk_fields
    using counter_get_fold_add [where k = ext_key and n = "\<lambda>_. 1" and c = "[]"
        and xs = "concat (map w_files ws)" and key = ext]
    by (simp add: counter_get_def sum_list_triv)
qed

subsection \<open>Sums over the main subfolders\<close>

lemma member_of_unique: "member_of k w \<Longrightarrow> member_of k' w \<Longrightarrow> k = k'"
  by (simp add: member_of_def)

lemma sum_one_member:
  "distinct ks \<Longrightarrow>
   sum_list (map (\<lambda>k. if member_of k w then (a::int) else 0) ks) =
     (if \<exists>k\<in>set ks. member_of k w then a else 0)"
  by (induction ks) (auto dest: member_of_unique)

lemma sum_members:
  fixes F :: "walk_entry \<Rightarrow> int"
  assumes "distinct ks"
  shows "sum_list (map (\<lambda>k. sum_list (map F (filter (member_of k) ws))) ks) =
         sum_list (map F (filter (\<lambda>w. \<exists>k\<in>set ks. member_of k w) ws))"
proof (induction ws)
  case Nil
  show ?case by simp
next
  case (Cons w ws)
  have "sum_list (map (\<lambda>k. sum_list (map F (filter (member_of k) (w # ws)))) ks) =
        sum_list (map (\<lambda>k. (if member_of k w then F w else 0) + sum_list (map F (filter (member_of k) ws))) ks)"
    by (intro arg_cong [where f = sum_list] map_cong) auto
  also have "\<dots> = sum_list (map (\<lambda>k. if member_of k w then F w else 0) ks) +
                   sum_list (map (\<lambda>k. sum_list (map F (filter (member_of k) ws))) ks)"
    by (simp add: sum_list_addf)
  finally show ?case using Cons sum_one_member [OF assms, of w "F w"] by simp
qed

lemma alist_by_keys:
  "distinct (map fst al) \<Longrightarrow> al = map (\<lambda>k. (k, the (map_of al k))) (map fst al)"
proof (induction al)
  case Nil
  show ?case by simp
next
  case (Cons p al)
  obtain k v where p: "p = (k, v)" by (cases p)
  have k: "k \<notin> fst ` set al" and d: "distinct (map fst al)"
    using Cons.prems by (simp_all add: p)
  have "map (\<lambda>k'. (k', the (map_of (p # al) k'))) (map fst al) =
        map (\<lambda>k'. (k', the (map_of al k'))) (map fst al)"
  proof (rule map_cong [OF refl])
    fix k' assume "k' \<in> set (map fst al)"
    then have "k' \<noteq> k" using k by auto
    then show "(k', the (map_of (p # al) k')) = (k', the (map_of al k'))" by (simp add: p)
  qed
  also have "\<dots> = al" using Cons.IH [OF d] by simp
  finally show ?case by (simp add: p)
qed

lemma subfolders_scan_walk:
  assumes "distinct hs"
  shows "subfolders (scan_walk r hs ws) =
         map (\<lambda>name. (name, fold sf_accumulate (map folder_record (filter (member_of name) ws))
                              (new_sf_data (os_path_join r name)))) hs"
proof -
  let ?al = "subfolders (scan_walk r hs ws)"
  have "?al = map (\<lambda>k. (k, the (map_of ?al k))) (map fst ?al)"
    by (rule alist_by_keys) (rule distinct_scan_walk)
  also have "\<dots> = map (\<lambda>k. (k, the (map_of ?al k))) hs"
    by (simp add: keys_scan_walk [OF assms])
  also have "\<dots> = map (\<lambda>name. (name, fold sf_accumulate (map folder_record (filter (member_of name) ws))
                              (new_sf_data (os_path_join r name)))) hs"
    by (intro map_cong) (simp_all add: map_of_scan_walk)
  finally show ?thesis .
qed

lemma group_sum_scan_walk:
  assumes "distinct hs"
  shows "group_sum f (scan_walk r hs ws) =
         sum_list (map (\<lambda>name. f (fold sf_accumulate (map folder_record (filter (member_of name) ws))
                              (new_sf_data (os_path_join r name)))) hs)"
  by (simp add: group_sum_def subfolders_scan_walk [OF assms] comp_def)

lemma group_sums:
  assumes "distinct hs"
  shows "group_sum sf_total_folders (scan_walk r hs ws) = int (length (filter (\<lambda>w. \<exists>k\<in>set hs. member_of k w) ws))"
    and "group_sum sf_total_files (scan_walk r hs ws) = sum_list (map (\<lambda>w. num_files (folder_record w)) (filter (\<lambda>w. \<exists>k\<in>set hs. member_of k w) ws))"
    and "group_sum sf_dicom_files (scan_walk r hs ws) = sum_list (map (\<lambda>w. dicom_files (folder_record w)) (filter (\<lambda>w. \<exists>k\<in>set hs. member_of k w) ws))"
    and "group_sum sf_dat_files (scan_walk r hs ws) = sum_list (map (\<lambda>w. dat_files (folder_record w)) (filter (\<lambda>w. \<exists>k\<in>set hs. member_of k w) ws))"
proof -
  show "group_sum sf_total_folders (scan_walk r hs ws) = int (length (filter (\<lambda>w. \<exists>k\<in>set hs. member_of k w) ws))"
    using sum_members [OF assms, of "\<lambda>_. 1" ws]
    by (simp add: group_sum_scan_walk [OF assms] fold_sf_accumulate new_sf_data_def sum_list_triv)
  show "group_sum sf_total_files (scan_walk r hs ws) = sum_list (map (\<lambda>w. num_files (folder_record w)) (filter (\<lambda>w. \<exists>k\<in>set hs. member_of k w) ws))"
    using sum_members [OF assms, of "\<lambda>w. num_files (folder_record w)" ws]
    by (simp add: group_sum_scan_walk [OF assms] fold_sf_accumulate new_sf_data_def comp_def)
  show "group_sum sf_dicom_files (scan_walk r hs ws) = sum_list (map (\<lambda>w. dicom_files (folder_record w)) (filter (\<lambda>w. \<exists>k\<in>set hs. member_of k w) ws))"
    using sum_members [OF assms, of "\<lambda>w. dicom_files (folder_record w)" ws]
    by (simp add: group_sum_scan_walk [OF assms] fold_sf_accumulate new_sf_data_def comp_def)
  show "group_sum sf_dat_files (scan_walk r hs ws) = sum_list (map (\<lambda>w. dat_files (folder_record w)) (filter (\<lambda>w. \<exists>k\<in>set hs. member_of k w) ws))"
    using sum_members [OF assms, of "\<lambda>w. dat_files (folder_record w)" ws]
    by (simp add: group_sum_scan_walk [OF assms] fold_sf_accumulate new_sf_data_def comp_def)
qed

lemma group_totals_mset:
  assumes "mset fs = mset fs'"
  shows "group_totals_of (fold sf_accumulate fs sf) = group_totals_of (fold sf_accumulate fs' sf)"
proof -
  have l: "int (length fs) = int (length fs')" using assms by (metis size_mset)
  have c: "mset (concat (map file_types fs)) = mset (concat (map file_types fs'))"
    using sum_list_mset_cong [OF assms, of "\<lambda>f. mset (file_types f)"] by (simp add: mset_concat comp_def)
  have e: "map_of (sf_file_counts (fold sf_accumulate fs sf)) = map_of (sf_file_counts (fold sf_accumulate fs' sf))"
    unfolding fold_sf_accumulate by (rule map_of_fold_add_mset [OF c])
  have d: "map_of (sf_depth_counts (fold sf_accumulate fs sf)) = map_of (sf_depth_counts (fold sf_accumulate fs' sf))"
    unfolding fold_sf_accumulate by (rule map_of_fold_add_mset [OF assms])
  show ?thesis
    unfolding group_totals_of_def
    using l e d max_or_0_keys [OF d] sum_list_mset_cong [OF assms, of num_files]
      sum_list_mset_cong [OF assms, of dicom_files] sum_list_mset_cong [OF assms, of dat_files]
    by (simp add: fold_sf_accumulate)
qed

subsection \<open>Subjects\<close>

lemma base_after_subject_add:
  "map_of (subject_add s item d) =
     (map_of d)(s \<mapsto> counter_add (case map_of d s of None \<Rightarrow> [] | Some cnts \<Rightarrow> cnts) (fst item) (snd item))"
  by (simp add: subject_add_def update_conv')

lemma fold_subject_add:
  "map_of (fold (subject_add s) items d) subj =
     (if s = subj \<and> items \<noteq> []
      then Some (fold (\<lambda>item c. counter_add c (fst item) (snd item)) items
                  (case map_of d subj of None \<Rightarrow> [] | Some cnts \<Rightarrow> cnts))
      else map_of d subj)"
proof (induction items arbitrary: d)
  case Nil
  show ?case by simp
next
  case (Cons item items)
  show ?case by (cases "items = []") (simp_all add: Cons base_after_subject_add)
qed

lemma subject_step_map_of:
  "map_of (subject_step name folder d) subj =
     (if has_subject name subj folder \<and> file_types folder \<noteq> []
      then Some (fold (\<lambda>item c. counter_add c (fst item) (snd item)) (file_types folder)
                  (case map_of d subj of None \<Rightarrow> [] | Some cnts \<Rightarrow> cnts))
      else map_of d subj)"
  by (auto simp: subject_step_def has_subject_def Let_def fold_subject_add)

lemma fold_subject_step:
  "map_of (fold (subject_step name) fs d) subj =
     (if concat (map file_types (filter (has_subject name subj) fs)) = [] then map_of d subj
      else Some (fold (\<lambda>item c. counter_add c (fst item) (snd item))
                   (concat (map file_types (filter (has_subject name subj) fs)))
                   (case map_of d subj of None \<Rightarrow> [] | Some cnts \<Rightarrow> cnts)))"
proof (induction fs arbitrary: d)
  case Nil
  show ?case by simp
next
  case (Cons f fs)
  show ?case
  proof (cases "has_subject name subj f \<and> file_types f \<noteq> []")
    case True
    then show ?thesis
      by (cases "concat (map file_types (filter (has_subject name subj) fs)) = []")
         (simp_all add: Cons subject_step_map_of del: concat_eq_Nil_conv)
  next
    case False
    have s: "map_of (subject_step name f d) subj = map_of d subj"
      unfolding subject_step_map_of using False by (rule if_not_P)
    have c: "concat (map file_types (filter (has_subject name subj) (f # fs))) =
          concat (map file_types (filter (has_subject name subj) fs))"
      using False by auto
    show ?thesis by (simp only: c fold_simps o_apply Cons s)
  qed
qed

lemma subject_counts:
  assumes "map_of (subject_ext_counts name sf) subj = Some cnts"
  shows "cnts = fold (\<lambda>item c. counter_add c (fst item) (snd item))
                  (concat (map file_types (filter (has_subject name subj) (sf_folder_details sf)))) []"
  using assms by (simp add: subject_ext_counts_def fold_subject_step split: if_splits)

lemma subject_totals:
  assumes "(name, sf) \<in> set (subfolders (scan_walk r hs ws))"
    and "map_of (subject_ext_counts name sf) subj = Some cnts"
  shows "sum_values cnts =
           sum_list (map num_files (filter (has_subject name subj) (sf_folder_details sf)))"
    and "counter_get cnts key =
           sum_list (map (\<lambda>folder. counter_get (file_types folder) key)
                      (filter (has_subject name subj) (sf_folder_details sf)))"
proof -
  let ?fs = "map folder_record (filter (member_of name) ws)"
  have sf: "sf = fold sf_accumulate ?fs (new_sf_data (os_path_join r name))"
    by (rule group_of_scan_walk(2) [OF assms(1)])
  have a: "sf_folder_details sf = ?fs"
    unfolding sf by (simp add: fold_sf_accumulate new_sf_data_def)
  let ?items = "concat (map file_types (filter (has_subject name subj) ?fs))"
  have c: "cnts = fold (\<lambda>item c. counter_add c (fst item) (snd item)) ?items []"
    using subject_counts [OF assms(2)] by (simp only: a)
  have "sum_values cnts = sum_list (map snd ?items)"
    unfolding c using sum_values_fold_add [where k = fst and n = snd and c = "[]" and xs = ?items]
    by (simp add: sum_values_def)
  then show "sum_values cnts =
           sum_list (map num_files (filter (has_subject name subj) (sf_folder_details sf)))"
    by (simp only: a sum_concat_file_types)
  have "counter_get cnts key = sum_list (map snd (filter (\<lambda>item. fst item = key) ?items))"
    unfolding c using counter_get_fold_add [where k = fst and n = snd and c = "[]" and xs = ?items and key = key]
    by (simp add: counter_get_def)
  then show "counter_get cnts key =
           sum_list (map (\<lambda>folder. counter_get (file_types folder) key)
                      (filter (has_subject name subj) (sf_folder_details sf)))"
    by (simp only: a sum_key_concat_file_types)
qed

lemma map_of_subject_status:
  "map_of (subject_status name sf) subj = map_option status_of_counts (map_of (subject_ext_counts name sf) subj)"
  by (simp add: subject_status_def map_of_map)

section \<open>The walk of a tree\<close>

lemma split_on_append:
  "c \<notin> set p \<Longrightarrow> split_on c (p @ c # rest) = p # split_on c rest"
  by (induction p) auto

lemma split_on_join:
  "ps \<noteq> [] \<Longrightarrow> \<forall>p\<in>set ps. c \<notin> set p \<Longrightarrow> split_on c (join [c] ps) = ps"
proof (induction "[c]" ps rule: join.induct)
  case 1
  then show ?case by simp
next
  case (2 p)
  then show ?case by (simp add: split_on_no_sep)
next
  case (3 p q ps)
  then show ?case by (simp add: split_on_append)
qed

lemma relpath_of_not_dot:
  assumes "ps \<noteq> []" "\<forall>p\<in>set ps. valid_name p"
  shows "relpath_of ps \<noteq> ''.''"
proof
  assume a: "relpath_of ps = ''.''"
  have "split_on os_sep (join [os_sep] ps) = ps"
    using assms by (intro split_on_join) (auto simp: valid_name_def)
  moreover have "split_on os_sep ''.'' = [''.'']" by (simp add: os_sep_def)
  ultimately have "ps = [''.'']" using a assms by (simp add: relpath_of_def)
  then show False using assms by (simp add: valid_name_def)
qed

lemma split_relpath_of:
  assumes "ps \<noteq> []" "\<forall>p\<in>set ps. valid_name p"
  shows "split_on os_sep (relpath_of ps) = ps"
  using assms by (simp add: relpath_of_def split_on_join valid_name_def)

lemma relpath_of_inj:
  assumes "\<forall>p\<in>set ps. valid_name p" "\<forall>p\<in>set qs. valid_name p" "relpath_of ps = relpath_of qs"
  shows "ps = qs"
proof (cases "ps = []")
  case True
  then have "relpath_of qs = ''.''" using assms(3) by (simp add: relpath_of_def)
  then have "qs = []" using relpath_of_not_dot [of qs] assms(2) by blast
  with True show ?thesis by simp
next
  case False
  have "qs \<noteq> []"
  proof
    assume "qs = []"
    then have "relpath_of ps = ''.''" using assms(3) by (simp add: relpath_of_def)
    then show False using relpath_of_not_dot [of ps] False assms(1) by blast
  qed
  then have "split_on os_sep (relpath_of qs) = qs" using assms(2) by (rule split_relpath_of)
  moreover have "split_on os_sep (relpath_of ps) = ps" using False assms(1) by (rule split_relpath_of)
  ultimately show ?thesis using assms(3) by metis
qed

lemma current_subfolder_relpath:
  assumes "ps \<noteq> []" "\<forall>p\<in>set ps. valid_name p"
  shows "current_subfolder_of (relpath_of ps) = Some (hd ps)"
    and "depth_of (relpath_of ps) = int (length ps)"
  using assms relpath_of_not_dot [OF assms]
  by (simp_all add: current_subfolder_of_def depth_of_def split_relpath_of)

lemma rel_path_os_walk:
  "map w_rel_path (os_walk r ps t) = map relpath_of (walk_parts ps t)"
proof (induction r ps t rule: os_walk.induct)
  case (1 r ps)
  show ?case by simp
next
  case (2 r ps files subs)
  have "map w_rel_path (concat (map (\<lambda>(name, child). os_walk (os_path_join r name) (ps @ [name]) child) subs)) =
        map relpath_of (concat (map (\<lambda>(name, child). walk_parts (ps @ [name]) child) subs))"
    using 2 by (induction subs) (auto simp: map_concat)
  then show ?case by simp
qed

lemma walk_parts_extend:
  "qs \<in> set (walk_parts ps t) \<Longrightarrow> \<exists>rest. qs = ps @ rest"
proof (induction ps t arbitrary: qs rule: walk_parts.induct)
  case (1 ps)
  then show ?case by simp
next
  case (2 ps files subs)
  then show ?case by fastforce
qed

lemma walk_parts_valid:
  "wf_node t \<Longrightarrow> \<forall>p\<in>set ps. valid_name p \<Longrightarrow> qs \<in> set (walk_parts ps t) \<Longrightarrow> \<forall>p\<in>set qs. valid_name p"
proof (induction ps t arbitrary: qs rule: walk_parts.induct)
  case (1 ps)
  then show ?case by simp
next
  case (2 ps files subs)
  then show ?case by fastforce
qed

lemma distinct_concat_map:
  assumes "distinct xs" "\<And>x. x \<in> set xs \<Longrightarrow> distinct (f x)"
    "\<And>x y. x \<in> set xs \<Longrightarrow> y \<in> set xs \<Longrightarrow> x \<noteq> y \<Longrightarrow> set (f x) \<inter> set (f y) = {}"
  shows "distinct (concat (map f xs))"
  using assms by (induction xs) fastforce+

lemma distinct_walk_parts: "wf_node t \<Longrightarrow> distinct (walk_parts ps t)"
proof (induction ps t rule: walk_parts.induct)
  case (1 ps)
  show ?case by simp
next
  case (2 ps files subs)
  have d: "distinct subs" using 2(2) by (auto dest: distinct_map [THEN iffD1])
  have a: "ps \<notin> set (concat (map (\<lambda>(name, child). walk_parts (ps @ [name]) child) subs))"
    using walk_parts_extend by fastforce
  have b: "distinct (concat (map (\<lambda>(name, child). walk_parts (ps @ [name]) child) subs))"
  proof (rule distinct_concat_map [OF d])
    fix x assume "x \<in> set subs"
    then show "distinct (case x of (name, child) \<Rightarrow> walk_parts (ps @ [name]) child)"
      using 2 by (cases x) auto
  next
    fix x y assume xy: "x \<in> set subs" "y \<in> set subs" "x \<noteq> y"
    then have "fst x \<noteq> fst y" using 2(2) by (auto simp: distinct_map inj_on_def)
    then show "set (case x of (name, child) \<Rightarrow> walk_parts (ps @ [name]) child) \<inter>
               set (case y of (name, child) \<Rightarrow> walk_parts (ps @ [name]) child) = {}"
      using walk_parts_extend by (cases x; cases y) fastforce
  qed
  show ?case using a b by simp
qed

lemma distinct_rel_paths:
  assumes "wf_node t"
  shows "distinct (map w_rel_path (os_walk r [] t))"
proof -
  have "inj_on relpath_of (set (walk_parts [] t))"
    using walk_parts_valid [OF assms, of "[]"] by (auto intro!: inj_onI relpath_of_inj)
  then show ?thesis by (simp add: rel_path_os_walk distinct_map distinct_walk_parts [OF assms])
qed

lemma member_of_os_walk:
  assumes "w \<in> set (os_walk r ps t)" "wf_node t" "ps \<noteq> []" "\<forall>p\<in>set ps. valid_name p"
  shows "member_of (hd ps) w"
proof -
  have "w_rel_path w \<in> set (map w_rel_path (os_walk r ps t))" using assms(1) by simp
  then obtain qs where qs: "qs \<in> set (walk_parts ps t)" "w_rel_path w = relpath_of qs"
    by (auto simp: rel_path_os_walk)
  obtain rest where rest: "qs = ps @ rest" using walk_parts_extend [OF qs(1)] by blast
  have v: "\<forall>p\<in>set qs. valid_name p" using walk_parts_valid [OF assms(2) assms(4) qs(1)] .
  have "qs \<noteq> []" using rest assms(3) by simp
  then have "current_subfolder_of (w_rel_path w) = Some (hd qs)"
    using v by (simp add: qs(2) current_subfolder_relpath)
  moreover have "hd qs = hd ps" using rest assms(3) by simp
  moreover have "hd ps \<noteq> []" using assms(3,4) by (cases ps) (auto simp: valid_name_def)
  ultimately show ?thesis by (simp add: member_of_def)
qed

lemma members_of_tree:
  assumes "wf_node (Dir files subs)"
  shows "filter (\<lambda>w. \<exists>k\<in>set (map fst subs). member_of k w) (os_walk r [] (Dir files subs)) =
         concat (map (\<lambda>(name, child). os_walk (os_path_join r name) [name] child) subs)"
proof -
  have "\<exists>k\<in>set (map fst subs). member_of k w"
    if "w \<in> set (concat (map (\<lambda>(name, child). os_walk (os_path_join r name) [name] child) subs))" for w
  proof -
    from that obtain name child where nc: "(name, child) \<in> set subs"
      "w \<in> set (os_walk (os_path_join r name) [name] child)" by auto
    have "member_of (hd [name]) w"
      using nc assms by (intro member_of_os_walk [OF nc(2)]) auto
    then show ?thesis using nc(1) by force
  qed
  then have "filter (\<lambda>w. \<exists>k\<in>set (map fst subs). member_of k w)
       (concat (map (\<lambda>(name, child). os_walk (os_path_join r name) [name] child) subs)) =
       concat (map (\<lambda>(name, child). os_walk (os_path_join r name) [name] child) subs)"
    by (intro filter_True) blast
  moreover have "\<not> member_of k \<lparr>w_root = r, w_rel_path = relpath_of [], w_dirs = map fst subs, w_files = files\<rparr>" for k
    by (simp add: member_of_def relpath_of_def current_subfolder_of_def)
  ultimately show ?thesis by simp
qed

lemma paths_of_scan:
  assumes "wf_node (Dir files subs)"
    and "scan_human_folder_complete human_root (Some (Dir files subs)) = Some scanned"
  shows "distinct (map path (all_folders scanned))"
    and "(name, sf) \<in> set (subfolders scanned) \<Longrightarrow> distinct (map path (sf_folder_details sf))"
proof -
  let ?ws = "os_walk human_root [] (Dir files subs)"
  have hd: "scanned = scan_walk human_root (map fst subs) ?ws"
    using assms(2) by (simp add: scan_human_folder_complete_def)
  have p: "map path (map folder_record ws) = map w_rel_path ws" for ws
    by (simp add: folder_record_fields)
  have d: "distinct (map w_rel_path ?ws)" by (rule distinct_rel_paths [OF assms(1)])
  show "distinct (map path (all_folders scanned))"
    unfolding hd scan_walk_fields p by (rule d)
  assume "(name, sf) \<in> set (subfolders scanned)"
  then have "sf = fold sf_accumulate (map folder_record (filter (member_of name) ?ws))
                    (new_sf_data (os_path_join human_root name))"
    unfolding hd by (rule group_of_scan_walk(2))
  then have "sf_folder_details sf = map folder_record (filter (member_of name) ?ws)"
    by (simp add: fold_sf_accumulate new_sf_data_def)
  then show "distinct (map path (sf_folder_details sf))"
    using distinct_map_filter [OF d, of "member_of name"] by (simp only: p)
qed

subsection \<open>The example tree\<close>

lemma example_wf: "wf_node example_tree"
  by code_simp

lemma example_scan_eq:
  "scan_human_folder_complete ''/data/Human'' (Some example_tree) = Some example_scan"
  by code_simp

lemma example_tree_Dir:
  "example_tree =
     Dir [''notes.txt'']
       [(''A'', Dir [] [(''S1'', Dir [''raw.dat'', ''out.mat''] [])]),
        (''B'', Dir [] [(''S2'', Dir [] [(''run1'', Dir [''1.ima'', ''2.IMA'', ''brain.nii.gz''] [])])]),
        (''C'', Dir [] [(''S3'', Dir [''a.mat.gz''] [])])]"
  by (simp add: example_tree_def)

lemma example_member:
  "(''A'', example_group ''A'') \<in> set (subfolders example_scan)"
  "(''B'', example_group ''B'') \<in> set (subfolders example_scan)"
  "(''C'', example_group ''C'') \<in> set (subfolders example_scan)"
  by code_simp+

lemma example_scan_walk:
  "example_scan = scan_walk ''/data/Human'' [''A'', ''B'', ''C''] (os_walk ''/data/Human'' [] example_tree)"
  by (simp add: example_scan_def)

lemma example_subject:
  "map_of (subject_ext_counts ''C'' (example_group ''C'')) ''S3'' = Some [(''.gz'', 1)]"
  by code_simp

text \<open>The scan of the example tree, evaluated.\<close>

lemma example_scenario:
  "subject_status ''A'' (example_group ''A'') = [(''S1'', ''Processed'')]"
  "subject_status ''B'' (example_group ''B'') = [(''S2'', ''Not Processed'')]"
  "ov_total_dat (hd_overview example_scan) = 1"
  "ov_total_dicom (hd_overview example_scan) = 2"
  "ov_total_nifti (hd_overview example_scan) = 1"
  "ov_max_depth (hd_overview example_scan) = 3"
  "map af_path (all_folders_sheet example_scan) =
     [''.'', ''A'', ''B'', ''C'', ''A/S1'', ''B/S2'', ''C/S3'', ''B/S2/run1'']"
  by code_simp+

lemma example_ranking:
  "snd (create_overview_sheet example_scan) =
     [(''.ima'', 2), (''.gz'', 2), (''.txt'', 1), (''.dat'', 1), (''.mat'', 1)]"
  by code_simp

section \<open>Sorted sheets\<close>

lemma sorted_pairs_iff:
  fixes d :: "'a \<Rightarrow> int" and p :: "'a \<Rightarrow> string"
  shows "sorted (map (\<lambda>r. (d r, p r)) xs) \<longleftrightarrow>
         sorted_wrt (\<lambda>a b. d a < d b \<or> (d a = d b \<and> p a \<le> p b)) xs"
proof -
  have "(d a, p a) \<le> (d b, p b) \<longleftrightarrow> d a < d b \<or> (d a = d b \<and> p a \<le> p b)" for a b
    by (auto simp: less_eq_prod_def)
  then show ?thesis by (simp add: sorted_map)
qed

lemma sorted_rows_unique:
  fixes d :: "'a \<Rightarrow> int" and p :: "'a \<Rightarrow> string"
  assumes "distinct (map p xs)" "mset rows = mset (sort_key (\<lambda>r. (d r, p r)) xs)"
    "sorted_wrt (\<lambda>a b. d a < d b \<or> (d a = d b \<and> p a \<le> p b)) rows"
  shows "rows = sort_key (\<lambda>r. (d r, p r)) xs"
proof -
  have "inj_on p (set xs)" using assms(1) by (simp add: distinct_map)
  then have i: "inj_on (\<lambda>r. (d r, p r)) (set xs)" by (auto simp: inj_on_def)
  have m: "mset xs = mset rows" using assms(2) by simp
  have s: "sorted (map (\<lambda>r. (d r, p r)) rows)" using assms(3) by (simp only: sorted_pairs_iff)
  have "sort_key (\<lambda>r. (d r, p r)) xs = rows" by (rule sort_key_inj_key_eq [OF m i s])
  then show ?thesis by simp
qed

lemma row_fields:
  "Relative_Path (make_row name statuses folder) = path folder"
  "Depth (make_row name statuses folder) = depth folder"
  by (simp_all add: make_row_def Let_def)

lemma af_row_fields:
  "af_path (all_folders_row_of folder) = path folder"
  "af_depth (all_folders_row_of folder) = depth folder"
  by (simp_all add: all_folders_row_of_def)

section \<open>The claims about the scan and the report\<close>

text \<open>
  Claim C1, as amended.  The overview counts every directory of the walk, the root among
  them, and the root belongs to no main subfolder.  So for the scan of a tree each total
  of the overview is the sum of that total over the main subfolders plus the share of
  the root itself: one folder, the files directly in the root, and those of them that
  count as DICOM or DAT.  The maximal depth is the maximum of the depths of all folder
  records, and the number of main subfolders is the number of entries of
  \<^verbatim>\<open>human_data['subfolders']\<close>.
\<close>

theorem overview_totals_root_plus_groups:
  assumes "wf_node (Dir files subs)"
    and "scan_human_folder_complete human_root (Some (Dir files subs)) = Some human_data"
  shows "ov_total_folders (hd_overview human_data) = group_sum sf_total_folders human_data + 1 \<and>
         ov_total_files (hd_overview human_data) =
           group_sum sf_total_files human_data + int (length files) \<and>
         ov_total_dicom (hd_overview human_data) =
           group_sum sf_dicom_files human_data +
           int (length (filter (\<lambda>file. ext_key file \<in> {''.dcm'', ''.ima''}) files)) \<and>
         ov_total_dat (hd_overview human_data) =
           group_sum sf_dat_files human_data +
           int (length (filter (\<lambda>file. ext_key file = ''.dat'') files)) \<and>
         ov_max_depth (hd_overview human_data) = Max (depth ` set (all_folders human_data)) \<and>
         ov_main_subfolders (hd_overview human_data) = int (length (subfolders human_data))"
proof -
  let ?hs = "map fst subs"
  let ?root = "\<lparr>w_root = human_root, w_rel_path = relpath_of [], w_dirs = ?hs, w_files = files\<rparr>"
  let ?rest = "concat (map (\<lambda>(name, child). os_walk (os_path_join human_root name) [name] child) subs)"
  let ?ws = "os_walk human_root [] (Dir files subs)"
  have hd: "human_data = scan_walk human_root ?hs ?ws"
    using assms(2) by (simp add: scan_human_folder_complete_def)
  have d: "distinct ?hs" using assms(1) by simp
  have ws: "?ws = ?root # ?rest" by simp
  have m: "filter (\<lambda>w. \<exists>k\<in>set ?hs. member_of k w) ?ws = ?rest"
    by (rule members_of_tree [OF assms(1)])
  have 1: "ov_total_folders (hd_overview human_data) = group_sum sf_total_folders human_data + 1"
    unfolding hd group_sums [OF d] m scan_walk_fields by simp
  have 2: "ov_total_files (hd_overview human_data) =
           group_sum sf_total_files human_data + int (length files)"
    unfolding hd group_sums [OF d] m scan_walk_fields by (simp add: folder_record_fields comp_def)
  have 3: "ov_total_dicom (hd_overview human_data) =
           group_sum sf_dicom_files human_data +
           int (length (filter (\<lambda>file. ext_key file \<in> {''.dcm'', ''.ima''}) files))"
    unfolding hd group_sums [OF d] m scan_walk_fields by (simp add: folder_record_fields comp_def)
  have 4: "ov_total_dat (hd_overview human_data) =
           group_sum sf_dat_files human_data +
           int (length (filter (\<lambda>file. ext_key file = ''.dat'') files))"
    unfolding hd group_sums [OF d] m scan_walk_fields by (simp add: folder_record_fields comp_def)
  have ne: "?ws \<noteq> []" by simp
  have 5: "ov_max_depth (hd_overview human_data) = Max (depth ` set (all_folders human_data))"
    unfolding hd by (rule max_depth_scan_walk [OF ne])
  have "length (subfolders human_data) = length (map fst (subfolders human_data))" by simp
  also have "\<dots> = length ?hs" unfolding hd keys_scan_walk [OF d] by simp
  finally have 6: "ov_main_subfolders (hd_overview human_data) = int (length (subfolders human_data))"
    unfolding hd scan_walk_fields by simp
  show ?thesis using 1 2 3 4 5 6 by blast
qed

text \<open>
  On the example tree the overview has one folder and one file more than the main
  subfolders together: the totals of the overview are not the sums over the main
  subfolders.
\<close>

theorem overview_totals_not_group_sums:
  "scan_human_folder_complete ''/data/Human'' (Some example_tree) = Some example_scan \<and>
   ov_total_folders (hd_overview example_scan) = 8 \<and>
   group_sum sf_total_folders example_scan = 7 \<and>
   ov_total_files (hd_overview example_scan) = 7 \<and>
   group_sum sf_total_files example_scan = 6 \<and>
   ov_total_folders (hd_overview example_scan) \<noteq> group_sum sf_total_folders example_scan \<and>
   ov_total_files (hd_overview example_scan) \<noteq> group_sum sf_total_files example_scan"
  by code_simp

theorem overview_totals_root_plus_groups_witness:
  "ov_total_folders (hd_overview example_scan) = group_sum sf_total_folders example_scan + 1 \<and>
   ov_total_files (hd_overview example_scan) = group_sum sf_total_files example_scan + 1 \<and>
   ov_main_subfolders (hd_overview example_scan) = int (length (subfolders example_scan))"
  using overview_totals_root_plus_groups [OF example_wf [unfolded example_tree_Dir] example_scan_eq [unfolded example_tree_Dir]]
  by simp

text \<open>
  Claim C4.  After every completed scan and for every main subfolder,
  \<^verbatim>\<open>total_folders\<close> is the length of \<^verbatim>\<open>folder_details\<close>, the values of
  \<^verbatim>\<open>file_counts\<close> sum to \<^verbatim>\<open>total_files\<close>, and \<^verbatim>\<open>total_files\<close> is the sum of
  \<^verbatim>\<open>num_files\<close> over the folders of the subfolder.
\<close>

theorem group_totals_consistent:
  assumes "scan_human_folder_complete human_root fs = Some human_data"
    and "(name, sf) \<in> set (subfolders human_data)"
  shows "sf_total_folders sf = int (length (sf_folder_details sf)) \<and>
         sum_values (sf_file_counts sf) = sf_total_files sf \<and>
         sf_total_files sf = sum_list (map num_files (sf_folder_details sf))"
proof -
  obtain files subs where "fs = Some (Dir files subs)"
    and "human_data = scan_walk human_root (map fst subs) (os_walk human_root [] (Dir files subs))"
    using assms(1) by (auto simp: scan_human_folder_complete_def split: option.splits node.splits)
  then show ?thesis using assms(2) group_totals_walk by blast
qed

theorem group_totals_consistent_witness:
  "sf_total_folders (example_group ''B'') = int (length (sf_folder_details (example_group ''B''))) \<and>
   sum_values (sf_file_counts (example_group ''B'')) = sf_total_files (example_group ''B'') \<and>
   sf_total_files (example_group ''B'') = sum_list (map num_files (sf_folder_details (example_group ''B'')))"
  using group_totals_consistent [OF example_scan_eq example_member(2)] .

text \<open>
  Claim C5.  Two walks that hold the same items in different orders give the same
  overview, the same global counts by file type, the same main subfolders and, for each
  of them, the same totals, counts by extension, depth histogram and maximal depth.
\<close>

theorem totals_permutation_invariant:
  assumes "mset walk = mset walk'"
  shows "hd_overview (scan_walk human_root human_subfolders walk) =
           hd_overview (scan_walk human_root human_subfolders walk') \<and>
         map_of (all_files_by_type (scan_walk human_root human_subfolders walk)) =
           map_of (all_files_by_type (scan_walk human_root human_subfolders walk')) \<and>
         map fst (subfolders (scan_walk human_root human_subfolders walk)) =
           map fst (subfolders (scan_walk human_root human_subfolders walk')) \<and>
         (\<forall>name. map_option group_totals_of
                    (map_of (subfolders (scan_walk human_root human_subfolders walk)) name) =
                  map_option group_totals_of
                    (map_of (subfolders (scan_walk human_root human_subfolders walk')) name))"
proof (intro conjI allI)
  have l: "int (length walk) = int (length walk')" using assms by (metis size_mset)
  have s: "set (map depth (map folder_record walk)) = set (map depth (map folder_record walk'))"
    using assms by (metis mset_map mset_eq_setD)
  show "hd_overview (scan_walk human_root human_subfolders walk) =
           hd_overview (scan_walk human_root human_subfolders walk')"
    unfolding scan_walk_fields
    using l max_or_0_set [OF s] sum_list_mset_cong [OF assms, of "\<lambda>w. int (length (w_files w))"]
      sum_list_mset_cong [OF assms, of "\<lambda>w. dicom_files (folder_record w)"]
      sum_list_mset_cong [OF assms, of "\<lambda>w. dat_files (folder_record w)"]
      sum_list_mset_cong [OF assms, of "\<lambda>w. nifti_files (folder_record w)"]
    by (simp add: comp_def)
  have c: "mset (concat (map w_files walk)) = mset (concat (map w_files walk'))"
    using sum_list_mset_cong [OF assms, of "\<lambda>w. mset (w_files w)"] by (simp add: mset_concat comp_def)
  show "map_of (all_files_by_type (scan_walk human_root human_subfolders walk)) =
           map_of (all_files_by_type (scan_walk human_root human_subfolders walk'))"
    unfolding scan_walk_fields by (rule map_of_fold_add_mset [OF c])
  show "map fst (subfolders (scan_walk human_root human_subfolders walk)) =
           map fst (subfolders (scan_walk human_root human_subfolders walk'))"
    by (simp add: scan_walk_fields fold_walk_step_keys)
  fix name
  have "mset (map folder_record (filter (member_of name) walk)) =
        mset (map folder_record (filter (member_of name) walk'))"
    using assms by (metis mset_filter mset_map)
  then show "map_option group_totals_of
                    (map_of (subfolders (scan_walk human_root human_subfolders walk)) name) =
                  map_option group_totals_of
                    (map_of (subfolders (scan_walk human_root human_subfolders walk')) name)"
    by (simp add: map_of_scan_walk group_totals_mset)
qed

theorem totals_permutation_invariant_witness:
  "hd_overview (scan_walk ''/data/Human'' [''A'', ''B'']
      [\<lparr>w_root = ''/data/Human/A'', w_rel_path = ''A'', w_dirs = [], w_files = [''1.dcm'']\<rparr>,
       \<lparr>w_root = ''/data/Human/B'', w_rel_path = ''B'', w_dirs = [], w_files = [''raw.dat'']\<rparr>]) =
   hd_overview (scan_walk ''/data/Human'' [''A'', ''B'']
      [\<lparr>w_root = ''/data/Human/B'', w_rel_path = ''B'', w_dirs = [], w_files = [''raw.dat'']\<rparr>,
       \<lparr>w_root = ''/data/Human/A'', w_rel_path = ''A'', w_dirs = [], w_files = [''1.dcm'']\<rparr>])"
  using totals_permutation_invariant [of "[\<lparr>w_root = ''/data/Human/A'', w_rel_path = ''A'', w_dirs = [], w_files = [''1.dcm'']\<rparr>,
       \<lparr>w_root = ''/data/Human/B'', w_rel_path = ''B'', w_dirs = [], w_files = [''raw.dat'']\<rparr>]"
      "[\<lparr>w_root = ''/data/Human/B'', w_rel_path = ''B'', w_dirs = [], w_files = [''raw.dat'']\<rparr>,
       \<lparr>w_root = ''/data/Human/A'', w_rel_path = ''A'', w_dirs = [], w_files = [''1.dcm'']\<rparr>]"
      "''/data/Human''" "[''A'', ''B'']"]
  by simp

text \<open>
  Claim C6.  The ranking of file types lists 20 extensions, or all of them when there are
  fewer, in descending order of count; the entries of one count stand in the order of
  \<^verbatim>\<open>all_files_by_type\<close>, which for a scan is the order in which the extensions are
  first met in the walk.  The entries are entries of \<^verbatim>\<open>all_files_by_type\<close>, no extension
  left out has a higher count than a listed one, and for a scan the count listed with an
  extension is the number of files of the walk with that extension.  Two scans with the
  same counts by extension give rankings with the same sequence of counts.
\<close>

theorem file_type_ranking:
  "length (snd (create_overview_sheet human_data)) = min 20 (length (all_files_by_type human_data)) \<and>
   sorted_wrt (\<lambda>a b. snd b \<le> snd a) (snd (create_overview_sheet human_data)) \<and>
   (\<forall>count. \<exists>rest.
      filter (\<lambda>item. snd item = count) (all_files_by_type human_data) =
      filter (\<lambda>item. snd item = count) (snd (create_overview_sheet human_data)) @ rest) \<and>
   (\<exists>omitted.
      mset (all_files_by_type human_data) = mset (snd (create_overview_sheet human_data)) + mset omitted \<and>
      (\<forall>item\<in>set omitted. \<forall>listed\<in>set (snd (create_overview_sheet human_data)).
         snd item \<le> snd listed)) \<and>
   map fst (all_files_by_type (scan_walk r hs ws)) =
     first_seen (map ext_key (concat (map w_files ws))) \<and>
   length (snd (create_overview_sheet (scan_walk r hs ws))) =
     min 20 (card (set (map ext_key (concat (map w_files ws))))) \<and>
   (\<forall>(ext, n)\<in>set (snd (create_overview_sheet (scan_walk r hs ws))).
      n = int (length (filter (\<lambda>file. ext_key file = ext) (concat (map w_files ws))))) \<and>
   (map_of (all_files_by_type (scan_walk r hs ws)) = map_of (all_files_by_type (scan_walk r' hs' ws')) \<longrightarrow>
      map snd (snd (create_overview_sheet (scan_walk r hs ws))) =
      map snd (snd (create_overview_sheet (scan_walk r' hs' ws'))))"
proof (intro conjI impI allI)
  show "length (snd (create_overview_sheet human_data)) = min 20 (length (all_files_by_type human_data))"
    by (simp add: create_overview_sheet_def most_common_length_eq)
  show "sorted_wrt (\<lambda>a b. snd b \<le> snd a) (snd (create_overview_sheet human_data))"
    by (simp add: create_overview_sheet_def most_common_sorted)
  show "\<exists>rest. filter (\<lambda>item. snd item = count) (all_files_by_type human_data) =
      filter (\<lambda>item. snd item = count) (snd (create_overview_sheet human_data)) @ rest" for count
    by (simp add: create_overview_sheet_def most_common_ties)
  show "\<exists>omitted.
      mset (all_files_by_type human_data) = mset (snd (create_overview_sheet human_data)) + mset omitted \<and>
      (\<forall>item\<in>set omitted. \<forall>listed\<in>set (snd (create_overview_sheet human_data)).
         snd item \<le> snd listed)"
    using most_common_omitted [of "all_files_by_type human_data" 20]
    by (simp add: create_overview_sheet_def)
  show "map fst (all_files_by_type (scan_walk r hs ws)) =
     first_seen (map ext_key (concat (map w_files ws)))"
    by (rule keys_all_files_by_type)
  show "length (snd (create_overview_sheet (scan_walk r hs ws))) =
     min 20 (card (set (map ext_key (concat (map w_files ws)))))"
    by (simp only: create_overview_sheet_def snd_conv most_common_length_eq length_all_files_by_type)
  show "\<forall>(ext, n)\<in>set (snd (create_overview_sheet (scan_walk r hs ws))).
      n = int (length (filter (\<lambda>file. ext_key file = ext) (concat (map w_files ws))))"
  proof (intro ballI, clarify)
    fix ext n
    assume "(ext, n) \<in> set (snd (create_overview_sheet (scan_walk r hs ws)))"
    then have "(ext, n) \<in> set (all_files_by_type (scan_walk r hs ws))"
      using set_most_common [of 20 "all_files_by_type (scan_walk r hs ws)"]
      by (auto simp: create_overview_sheet_def)
    then show "n = int (length (filter (\<lambda>file. ext_key file = ext) (concat (map w_files ws))))"
      by (rule items_all_files_by_type)
  qed
  assume "map_of (all_files_by_type (scan_walk r hs ws)) = map_of (all_files_by_type (scan_walk r' hs' ws'))"
  then have "map snd (most_common 20 (all_files_by_type (scan_walk r hs ws))) =
        map snd (most_common 20 (all_files_by_type (scan_walk r' hs' ws')))"
    by (intro most_common_counts distinct_all_files_by_type)
  then show "map snd (snd (create_overview_sheet (scan_walk r hs ws))) =
      map snd (snd (create_overview_sheet (scan_walk r' hs' ws')))"
    by (simp add: create_overview_sheet_def)
qed

theorem file_type_ranking_witness:
  "map snd (snd (create_overview_sheet (scan_walk ''/data/Human'' [''A'']
      [\<lparr>w_root = ''/data/Human/A'', w_rel_path = ''A'', w_dirs = [], w_files = [''raw.dat'', ''out.mat'']\<rparr>]))) =
   map snd (snd (create_overview_sheet (scan_walk ''/data/Human'' [''A'']
      [\<lparr>w_root = ''/data/Human/A'', w_rel_path = ''A'', w_dirs = [], w_files = [''out.mat'', ''raw.dat'']\<rparr>]))) \<and>
   length (snd (create_overview_sheet (scan_walk ''/data/Human'' [''A'']
      [\<lparr>w_root = ''/data/Human/A'', w_rel_path = ''A'', w_dirs = [], w_files = [''raw.dat'', ''out.mat'']\<rparr>]))) =
     min 20 (card (set (map ext_key [''raw.dat'', ''out.mat''])))"
proof -
  let ?w = "\<lparr>w_root = ''/data/Human/A'', w_rel_path = ''A'', w_dirs = [], w_files = [''raw.dat'', ''out.mat'']\<rparr>"
  let ?w' = "\<lparr>w_root = ''/data/Human/A'', w_rel_path = ''A'', w_dirs = [], w_files = [''out.mat'', ''raw.dat'']\<rparr>"
  note t = file_type_ranking [of _ "''/data/Human''" "[''A'']" "[?w]" "''/data/Human''" "[''A'']" "[?w']"]
  have "mset (concat (map w_files [?w])) = mset (concat (map w_files [?w']))" by simp
  then have m: "map_of (all_files_by_type (scan_walk ''/data/Human'' [''A''] [?w])) =
        map_of (all_files_by_type (scan_walk ''/data/Human'' [''A''] [?w']))"
    unfolding scan_walk_fields by (rule map_of_fold_add_mset)
  have c: "concat (map w_files [?w]) = [''raw.dat'', ''out.mat'']" by simp
  have "length (snd (create_overview_sheet (scan_walk ''/data/Human'' [''A''] [?w]))) =
     min 20 (card (set (map ext_key (concat (map w_files [?w])))))"
    using t by blast
  then have l: "length (snd (create_overview_sheet (scan_walk ''/data/Human'' [''A''] [?w]))) =
     min 20 (card (set (map ext_key [''raw.dat'', ''out.mat''])))"
    by (simp only: c)
  show ?thesis using t m l by blast
qed

text \<open>
  Claim C7.  Every item of the walk is counted in the overview.  The item of the root,
  with relative path \<^verbatim>\<open>'.'\<close>, changes no main subfolder.  Any other item whose first
  path segment is not a key of \<^verbatim>\<open>human_data['subfolders']\<close> changes no main subfolder
  either.  Otherwise the entry under the first path segment, and no other, accumulates
  the folder: its record is appended to \<^verbatim>\<open>folder_details\<close>, \<^verbatim>\<open>total_folders\<close> grows by
  one, \<^verbatim>\<open>total_files\<close>, \<^verbatim>\<open>dicom_files\<close> and \<^verbatim>\<open>dat_files\<close> by the files of the
  directory, the depth histogram by one at the depth of the path, and the counts by
  extension by the files of each extension.
\<close>

theorem walk_step_membership:
  "(ov_total_folders (make_overview hs (walk_step w s)) = ov_total_folders (make_overview hs s) + 1 \<and>
    ov_total_files (make_overview hs (walk_step w s)) =
      ov_total_files (make_overview hs s) + num_files (folder_record w) \<and>
    ov_total_dicom (make_overview hs (walk_step w s)) =
      ov_total_dicom (make_overview hs s) + dicom_files (folder_record w) \<and>
    ov_total_dat (make_overview hs (walk_step w s)) =
      ov_total_dat (make_overview hs s) + dat_files (folder_record w) \<and>
    st_all_folders (walk_step w s) = st_all_folders s @ [folder_record w]) \<and>
   (path (folder_record w) = w_rel_path w \<and>
    num_files (folder_record w) = int (length (w_files w)) \<and>
    dicom_files (folder_record w) =
      int (length (filter (\<lambda>file. ext_key file \<in> {''.dcm'', ''.ima''}) (w_files w))) \<and>
    dat_files (folder_record w) =
      int (length (filter (\<lambda>file. ext_key file = ''.dat'') (w_files w)))) \<and>
   (w_rel_path w = ''.'' \<longrightarrow> st_subfolders (walk_step w s) = st_subfolders s) \<and>
   (w_rel_path w \<noteq> ''.'' \<and> hd (split_on os_sep (w_rel_path w)) \<notin> fst ` set (st_subfolders s) \<longrightarrow>
      st_subfolders (walk_step w s) = st_subfolders s) \<and>
   (w_rel_path w \<noteq> ''.'' \<and> hd (split_on os_sep (w_rel_path w)) \<noteq> [] \<longrightarrow>
      map fst (st_subfolders (walk_step w s)) = map fst (st_subfolders s) \<and>
      (\<forall>name. map_of (st_subfolders (walk_step w s)) name =
         (if name = hd (split_on os_sep (w_rel_path w))
          then map_option (sf_accumulate (folder_record w)) (map_of (st_subfolders s) name)
          else map_of (st_subfolders s) name))) \<and>
   (w_rel_path w \<noteq> ''.'' \<and> hd (split_on os_sep (w_rel_path w)) \<noteq> [] \<and>
    map_of (st_subfolders s) (hd (split_on os_sep (w_rel_path w))) = Some sf \<longrightarrow>
      (\<exists>sf'. map_of (st_subfolders (walk_step w s)) (hd (split_on os_sep (w_rel_path w))) = Some sf' \<and>
         sf_folder_details sf' = sf_folder_details sf @ [folder_record w] \<and>
         sf_total_folders sf' = sf_total_folders sf + 1 \<and>
         sf_total_files sf' = sf_total_files sf + int (length (w_files w)) \<and>
         sf_dicom_files sf' =
           sf_dicom_files sf +
           int (length (filter (\<lambda>file. ext_key file \<in> {''.dcm'', ''.ima''}) (w_files w))) \<and>
         sf_dat_files sf' =
           sf_dat_files sf + int (length (filter (\<lambda>file. ext_key file = ''.dat'') (w_files w))) \<and>
         (\<forall>d. counter_get (sf_depth_counts sf') d =
            counter_get (sf_depth_counts sf) d + (if d = depth_of (w_rel_path w) then 1 else 0)) \<and>
         (\<forall>key. counter_get (sf_file_counts sf') key =
            counter_get (sf_file_counts sf) key +
            int (length (filter (\<lambda>file. ext_key file = key) (w_files w)))) \<and>
         sf_path sf' = sf_path sf))"
proof (intro conjI impI allI)
  show "w_rel_path w = ''.'' \<Longrightarrow> st_subfolders (walk_step w s) = st_subfolders s"
    by (simp add: walk_step_eq in_main_subfolder_def current_subfolder_of_def)
  show "w_rel_path w \<noteq> ''.'' \<and> hd (split_on os_sep (w_rel_path w)) \<notin> fst ` set (st_subfolders s) \<Longrightarrow>
      st_subfolders (walk_step w s) = st_subfolders s"
    by (simp add: walk_step_eq in_main_subfolder_def current_subfolder_of_def)
  show "w_rel_path w \<noteq> ''.'' \<and> hd (split_on os_sep (w_rel_path w)) \<noteq> [] \<Longrightarrow>
      map fst (st_subfolders (walk_step w s)) = map fst (st_subfolders s)"
    by (rule keys_walk_step)
  show "w_rel_path w \<noteq> ''.'' \<and> hd (split_on os_sep (w_rel_path w)) \<noteq> [] \<Longrightarrow>
      map_of (st_subfolders (walk_step w s)) name =
         (if name = hd (split_on os_sep (w_rel_path w))
          then map_option (sf_accumulate (folder_record w)) (map_of (st_subfolders s) name)
          else map_of (st_subfolders s) name)" for name
    by (cases "map_of (st_subfolders s) name")
       (auto simp: map_of_walk_step member_of_def current_subfolder_of_def)
  show "\<exists>sf'. map_of (st_subfolders (walk_step w s)) (hd (split_on os_sep (w_rel_path w))) = Some sf' \<and>
         sf_folder_details sf' = sf_folder_details sf @ [folder_record w] \<and>
         sf_total_folders sf' = sf_total_folders sf + 1 \<and>
         sf_total_files sf' = sf_total_files sf + int (length (w_files w)) \<and>
         sf_dicom_files sf' =
           sf_dicom_files sf +
           int (length (filter (\<lambda>file. ext_key file \<in> {''.dcm'', ''.ima''}) (w_files w))) \<and>
         sf_dat_files sf' =
           sf_dat_files sf + int (length (filter (\<lambda>file. ext_key file = ''.dat'') (w_files w))) \<and>
         (\<forall>d. counter_get (sf_depth_counts sf') d =
            counter_get (sf_depth_counts sf) d + (if d = depth_of (w_rel_path w) then 1 else 0)) \<and>
         (\<forall>key. counter_get (sf_file_counts sf') key =
            counter_get (sf_file_counts sf) key +
            int (length (filter (\<lambda>file. ext_key file = key) (w_files w)))) \<and>
         sf_path sf' = sf_path sf"
    if a: "w_rel_path w \<noteq> ''.'' \<and> hd (split_on os_sep (w_rel_path w)) \<noteq> [] \<and>
      map_of (st_subfolders s) (hd (split_on os_sep (w_rel_path w))) = Some sf"
  proof -
    have m: "member_of (hd (split_on os_sep (w_rel_path w))) w"
      using a by (simp add: member_of_def current_subfolder_of_def)
    have "map_of (st_subfolders (walk_step w s)) (hd (split_on os_sep (w_rel_path w))) =
          Some (sf_accumulate (folder_record w) sf)"
      using a m by (simp add: map_of_walk_step)
    then show ?thesis
      by (simp add: sf_accumulate_fields sf_accumulate_file_counts folder_record_fields)
  qed
qed (simp_all add: make_overview_walk_step walk_step_all_folders folder_record_fields)

theorem walk_step_membership_witness:
  "st_subfolders (walk_step \<lparr>w_root = ''/data/Human'', w_rel_path = ''.'', w_dirs = [''A''], w_files = [''notes.txt'']\<rparr>
      (init_state ''/data/Human'' [''A''])) = st_subfolders (init_state ''/data/Human'' [''A'']) \<and>
   st_subfolders (walk_step \<lparr>w_root = ''/data/Human/Z'', w_rel_path = ''Z'', w_dirs = [], w_files = [''late.dat'']\<rparr>
      (init_state ''/data/Human'' [''A''])) = st_subfolders (init_state ''/data/Human'' [''A'']) \<and>
   ov_total_files (make_overview [''A''] (walk_step \<lparr>w_root = ''/data/Human/Z'', w_rel_path = ''Z'', w_dirs = [], w_files = [''late.dat'']\<rparr>
      (init_state ''/data/Human'' [''A'']))) = ov_total_files (make_overview [''A''] (init_state ''/data/Human'' [''A''])) + 1 \<and>
   map_option sf_total_folders (map_of (st_subfolders (walk_step \<lparr>w_root = ''/data/Human/A/S1'', w_rel_path = ''A/S1'', w_dirs = [], w_files = [''raw.dat'']\<rparr>
      (init_state ''/data/Human'' [''A'']))) ''A'') = Some 1 \<and>
   map_option sf_total_files (map_of (st_subfolders (walk_step \<lparr>w_root = ''/data/Human/A/S1'', w_rel_path = ''A/S1'', w_dirs = [], w_files = [''raw.dat'']\<rparr>
      (init_state ''/data/Human'' [''A'']))) ''A'') = Some 1 \<and>
   map_option (map path \<circ> sf_folder_details) (map_of (st_subfolders (walk_step \<lparr>w_root = ''/data/Human/A/S1'', w_rel_path = ''A/S1'', w_dirs = [], w_files = [''raw.dat'']\<rparr>
      (init_state ''/data/Human'' [''A'']))) ''A'') = Some [''A/S1'']"
proof -
  let ?s = "init_state ''/data/Human'' [''A'']"
  let ?w1 = "\<lparr>w_root = ''/data/Human'', w_rel_path = ''.'', w_dirs = [''A''], w_files = [''notes.txt'']\<rparr>"
  let ?w2 = "\<lparr>w_root = ''/data/Human/Z'', w_rel_path = ''Z'', w_dirs = [], w_files = [''late.dat'']\<rparr>"
  let ?w3 = "\<lparr>w_root = ''/data/Human/A/S1'', w_rel_path = ''A/S1'', w_dirs = [], w_files = [''raw.dat'']\<rparr>"
  have k: "fst ` set (st_subfolders ?s) = {''A''}"
    by (simp add: init_state_def init_subfolders_def)
  have g: "hd (split_on os_sep (w_rel_path ?w3)) = ''A''" by (simp add: os_sep_def)
  have e: "map_of (st_subfolders ?s) ''A'' = Some (new_sf_data (os_path_join ''/data/Human'' ''A''))"
    by (simp add: init_state_def map_of_init_subfolders)
  have 1: "st_subfolders (walk_step ?w1 ?s) = st_subfolders ?s"
    using walk_step_membership [of "[''A'']" ?w1 ?s] by simp
  have 2: "st_subfolders (walk_step ?w2 ?s) = st_subfolders ?s \<and>
      ov_total_files (make_overview [''A''] (walk_step ?w2 ?s)) = ov_total_files (make_overview [''A''] ?s) + 1"
    using walk_step_membership [of "[''A'']" ?w2 ?s] by (simp add: k os_sep_def)
  obtain sf' where sf': "map_of (st_subfolders (walk_step ?w3 ?s)) ''A'' = Some sf'"
    "sf_folder_details sf' = sf_folder_details (new_sf_data (os_path_join ''/data/Human'' ''A'')) @ [folder_record ?w3]"
    "sf_total_folders sf' = sf_total_folders (new_sf_data (os_path_join ''/data/Human'' ''A'')) + 1"
    "sf_total_files sf' = sf_total_files (new_sf_data (os_path_join ''/data/Human'' ''A'')) + int (length (w_files ?w3))"
    using walk_step_membership [of "[''A'']" ?w3 ?s "new_sf_data (os_path_join ''/data/Human'' ''A'')"] e
    unfolding g by auto
  have 3: "map_option sf_total_folders (map_of (st_subfolders (walk_step ?w3 ?s)) ''A'') = Some 1"
    "map_option sf_total_files (map_of (st_subfolders (walk_step ?w3 ?s)) ''A'') = Some 1"
    "map_option (map path \<circ> sf_folder_details) (map_of (st_subfolders (walk_step ?w3 ?s)) ''A'') = Some [''A/S1'']"
    using sf' by (simp_all add: new_sf_data_def folder_record_fields)
  show ?thesis using 1 2 3 by blast
qed

text \<open>
  Claim C8.  The rows of a subfolder sheet and the rows of \<^verbatim>\<open>All_Folders\<close> stand in
  ascending order of depth, rows of one depth in the order of their paths, and they are
  the rows of the folders, one each.  When the paths are distinct no other arrangement of
  the rows is in that order.  The paths of the scan of a tree, and so of each of its main
  subfolders, are distinct.
\<close>

theorem sheets_sorted_by_depth_then_path:
  "sorted_wrt (\<lambda>a b. Depth a < Depth b \<or> (Depth a = Depth b \<and> Relative_Path a \<le> Relative_Path b))
     (create_subfolder_sheet name sf) \<and>
   mset (map Relative_Path (create_subfolder_sheet name sf)) = mset (map path (sf_folder_details sf)) \<and>
   sorted_wrt (\<lambda>a b. af_depth a < af_depth b \<or> (af_depth a = af_depth b \<and> af_path a \<le> af_path b))
     (all_folders_sheet human_data) \<and>
   mset (map af_path (all_folders_sheet human_data)) = mset (map path (all_folders human_data)) \<and>
   (distinct (map path (sf_folder_details sf)) \<longrightarrow>
      (\<forall>rows. mset rows = mset (create_subfolder_sheet name sf) \<and>
              sorted_wrt (\<lambda>a b. Depth a < Depth b \<or> (Depth a = Depth b \<and> Relative_Path a \<le> Relative_Path b)) rows \<longrightarrow>
              rows = create_subfolder_sheet name sf)) \<and>
   (distinct (map path (all_folders human_data)) \<longrightarrow>
      (\<forall>rows. mset rows = mset (all_folders_sheet human_data) \<and>
              sorted_wrt (\<lambda>a b. af_depth a < af_depth b \<or> (af_depth a = af_depth b \<and> af_path a \<le> af_path b)) rows \<longrightarrow>
              rows = all_folders_sheet human_data)) \<and>
   (wf_node (Dir files subs) \<and>
    scan_human_folder_complete human_root (Some (Dir files subs)) = Some scanned \<longrightarrow>
      distinct (map path (all_folders scanned)) \<and>
      (\<forall>(name', sf') \<in> set (subfolders scanned). distinct (map path (sf_folder_details sf'))))"
proof (intro conjI impI allI)
  let ?rows = "map (make_row name (subject_status name sf)) (sf_folder_details sf)"
  have sheet: "create_subfolder_sheet name sf = sort_key (\<lambda>row. (Depth row, Relative_Path row)) ?rows"
    by (simp add: create_subfolder_sheet_def)
  have rp: "map Relative_Path ?rows = map path (sf_folder_details sf)"
    by (simp add: row_fields)
  show "sorted_wrt (\<lambda>a b. Depth a < Depth b \<or> (Depth a = Depth b \<and> Relative_Path a \<le> Relative_Path b))
     (create_subfolder_sheet name sf)"
    unfolding sheet sorted_pairs_iff [symmetric] by (rule sorted_sort_key)
  have "mset (map Relative_Path (create_subfolder_sheet name sf)) = mset (map Relative_Path ?rows)"
    unfolding sheet by (simp only: mset_map mset_sort)
  then show "mset (map Relative_Path (create_subfolder_sheet name sf)) = mset (map path (sf_folder_details sf))"
    by (simp only: rp)
  let ?afs = "map all_folders_row_of (all_folders human_data)"
  have ap: "map af_path ?afs = map path (all_folders human_data)"
    by (simp add: af_row_fields)
  show "sorted_wrt (\<lambda>a b. af_depth a < af_depth b \<or> (af_depth a = af_depth b \<and> af_path a \<le> af_path b))
     (all_folders_sheet human_data)"
    unfolding all_folders_sheet_def sorted_pairs_iff [symmetric] by (rule sorted_sort_key)
  have "mset (map af_path (all_folders_sheet human_data)) = mset (map af_path ?afs)"
    unfolding all_folders_sheet_def by (simp only: mset_map mset_sort)
  then show "mset (map af_path (all_folders_sheet human_data)) = mset (map path (all_folders human_data))"
    by (simp only: ap)
  show "rows = create_subfolder_sheet name sf"
    if "distinct (map path (sf_folder_details sf))"
      and "mset rows = mset (create_subfolder_sheet name sf) \<and>
           sorted_wrt (\<lambda>a b. Depth a < Depth b \<or> (Depth a = Depth b \<and> Relative_Path a \<le> Relative_Path b)) rows"
    for rows
  proof -
    have "distinct (map Relative_Path ?rows)" using that(1) by (simp only: rp)
    then show ?thesis using that(2) unfolding sheet by (intro sorted_rows_unique) simp_all
  qed
  show "rows = all_folders_sheet human_data"
    if "distinct (map path (all_folders human_data))"
      and "mset rows = mset (all_folders_sheet human_data) \<and>
           sorted_wrt (\<lambda>a b. af_depth a < af_depth b \<or> (af_depth a = af_depth b \<and> af_path a \<le> af_path b)) rows"
    for rows
  proof -
    have "distinct (map af_path ?afs)" using that(1) by (simp only: ap)
    then show ?thesis using that(2) unfolding all_folders_sheet_def by (intro sorted_rows_unique) simp_all
  qed
  assume a: "wf_node (Dir files subs) \<and>
    scan_human_folder_complete human_root (Some (Dir files subs)) = Some scanned"
  show "distinct (map path (all_folders scanned))"
    using a paths_of_scan(1) by blast
  show "\<forall>(name', sf') \<in> set (subfolders scanned). distinct (map path (sf_folder_details sf'))"
    using a paths_of_scan(2) by blast
qed

theorem sheets_sorted_by_depth_then_path_witness:
  "distinct (map path (all_folders example_scan)) \<and>
   distinct (map path (sf_folder_details (example_group ''B''))) \<and>
   sorted_wrt (\<lambda>a b. Depth a < Depth b \<or> (Depth a = Depth b \<and> Relative_Path a \<le> Relative_Path b))
     (create_subfolder_sheet ''B'' (example_group ''B''))"
  using sheets_sorted_by_depth_then_path [of "''B''" "example_group ''B''" example_scan "[''notes.txt'']" _ "''/data/Human''" example_scan]
    example_wf [unfolded example_tree_Dir] example_scan_eq [unfolded example_tree_Dir] example_member(2)
  by blast

text \<open>
  Claim C9.  When the root does not exist or cannot be listed, the scan returns nothing
  and \<^verbatim>\<open>main\<close> returns \<^verbatim>\<open>None\<close>, raises nothing and leaves no workbook, whatever the
  writer would do: it is not called.  For a root that can be listed the writer decides:
  when it stores a workbook \<^verbatim>\<open>main\<close> returns the name of the file, and when it raises
  \<^verbatim>\<open>main\<close> returns nothing.
\<close>

theorem main_fails_without_root:
  "(fs = None \<or> fs = Some Unreadable \<longrightarrow>
      scan_human_folder_complete human_root fs = None \<and>
      returned (main excel human_root output_folder timestamp fs) = None \<and>
      \<not> raised (main excel human_root output_folder timestamp fs) \<and>
      written (main excel human_root output_folder timestamp fs) = []) \<and>
   (\<forall>files subs workbook.
      fs = Some (Dir files subs) \<and>
      excel (os_path_join output_folder (''Human_Detailed_Analysis_'' @ timestamp @ ''.xlsx''))
        (excel_calls (scan_walk human_root (map fst subs) (os_walk human_root [] (Dir files subs)))) =
        Saved workbook \<longrightarrow>
      returned (main excel human_root output_folder timestamp fs) =
        Some (os_path_join output_folder (''Human_Detailed_Analysis_'' @ timestamp @ ''.xlsx'')) \<and>
      written (main excel human_root output_folder timestamp fs) =
        [(os_path_join output_folder (''Human_Detailed_Analysis_'' @ timestamp @ ''.xlsx''), workbook)]) \<and>
   (\<forall>files subs partial.
      fs = Some (Dir files subs) \<and>
      excel (os_path_join output_folder (''Human_Detailed_Analysis_'' @ timestamp @ ''.xlsx''))
        (excel_calls (scan_walk human_root (map fst subs) (os_walk human_root [] (Dir files subs)))) =
        Raised partial \<longrightarrow>
      returned (main excel human_root output_folder timestamp fs) = None \<and>
      raised (main excel human_root output_folder timestamp fs))"
proof (intro conjI)
  show "fs = None \<or> fs = Some Unreadable \<longrightarrow>
      scan_human_folder_complete human_root fs = None \<and>
      returned (main excel human_root output_folder timestamp fs) = None \<and>
      \<not> raised (main excel human_root output_folder timestamp fs) \<and>
      written (main excel human_root output_folder timestamp fs) = []"
  proof (rule impI)
    assume "fs = None \<or> fs = Some Unreadable"
    then show "scan_human_folder_complete human_root fs = None \<and>
      returned (main excel human_root output_folder timestamp fs) = None \<and>
      \<not> raised (main excel human_root output_folder timestamp fs) \<and>
      written (main excel human_root output_folder timestamp fs) = []"
    proof
      assume "fs = None"
      then show ?thesis by (simp add: main_def scan_human_folder_complete_def)
    next
      assume "fs = Some Unreadable"
      then show ?thesis by (simp add: main_def scan_human_folder_complete_def)
    qed
  qed
  show "\<forall>files subs workbook.
      fs = Some (Dir files subs) \<and>
      excel (os_path_join output_folder (''Human_Detailed_Analysis_'' @ timestamp @ ''.xlsx''))
        (excel_calls (scan_walk human_root (map fst subs) (os_walk human_root [] (Dir files subs)))) =
        Saved workbook \<longrightarrow>
      returned (main excel human_root output_folder timestamp fs) =
        Some (os_path_join output_folder (''Human_Detailed_Analysis_'' @ timestamp @ ''.xlsx'')) \<and>
      written (main excel human_root output_folder timestamp fs) =
        [(os_path_join output_folder (''Human_Detailed_Analysis_'' @ timestamp @ ''.xlsx''), workbook)]"
    by (simp add: main_def scan_human_folder_complete_def save_human_analysis_excel_def Let_def)
  show "\<forall>files subs partial.
      fs = Some (Dir files subs) \<and>
      excel (os_path_join output_folder (''Human_Detailed_Analysis_'' @ timestamp @ ''.xlsx''))
        (excel_calls (scan_walk human_root (map fst subs) (os_walk human_root [] (Dir files subs)))) =
        Raised partial \<longrightarrow>
      returned (main excel human_root output_folder timestamp fs) = None \<and>
      raised (main excel human_root output_folder timestamp fs)"
    by (auto simp: main_def scan_human_folder_complete_def save_human_analysis_excel_def Let_def
        split: option.splits)
qed

theorem main_fails_without_root_witness:
  "returned (main storing_writer ''/data/Human'' ''/out'' ''20240101_120000'' None) = None \<and>
   written (main storing_writer ''/data/Human'' ''/out'' ''20240101_120000'' None) = [] \<and>
   returned (main storing_writer ''/data/Human'' ''/out'' ''20240101_120000'' (Some Unreadable)) = None \<and>
   written (main storing_writer ''/data/Human'' ''/out'' ''20240101_120000'' (Some Unreadable)) = [] \<and>
   returned (main storing_writer ''/data/Human'' ''/out'' ''20240101_120000'' (Some (Dir [] []))) =
     Some ''/out/Human_Detailed_Analysis_20240101_120000.xlsx'' \<and>
   raised (main refusing_writer ''/data/Human'' ''/out'' ''20240101_120000'' (Some (Dir [] [])))"
  using main_fails_without_root [of None "''/data/Human''" storing_writer "''/out''" "''20240101_120000''"]
    main_fails_without_root [of "Some Unreadable" "''/data/Human''" storing_writer "''/out''" "''20240101_120000''"]
    main_fails_without_root [of "Some (Dir [] [])" "''/data/Human''" storing_writer "''/out''" "''20240101_120000''"]
    main_fails_without_root [of "Some (Dir [] [])" "''/data/Human''" refusing_writer "''/out''" "''20240101_120000''"]
  by (simp add: storing_writer_def refusing_writer_def os_path_join_def startswith_def endswith_def os_sep_def)

text \<open>
  Claim C10, as amended.  The folder records of a scan count each file once, under the
  extension \<^verbatim>\<open>os.path.splitext\<close> gives it, in lower case: the part of the name from
  its last dot on when another character than a dot stands before that dot, and the
  empty string for a name without a dot and for a name whose only dots lead it, such as
  \<^verbatim>\<open>.mat\<close>.  So the counts of a folder sum to its number of files, those of a main
  subfolder to its \<^verbatim>\<open>total_files\<close>, and those of a subject to the files of its
  folders.  The counts of a main subfolder and of a subject are, extension by extension,
  the sums of the counts of their folders.  \<^verbatim>\<open>x.nii.gz\<close> is counted under \<^verbatim>\<open>.gz\<close> and
  is a NIfTI file.  The status of a subject is decided on its \<^verbatim>\<open>.mat\<close>, \<^verbatim>\<open>.dat\<close> and
  \<^verbatim>\<open>.ima\<close> counts: \<^verbatim>\<open>a.mat.gz\<close> is counted under \<^verbatim>\<open>.gz\<close>, and a subject that holds
  only this file, like one that holds only a file named \<^verbatim>\<open>.mat\<close>, is \<^verbatim>\<open>Unknown\<close>.
\<close>

theorem extension_keys_last_suffix:
  "all_folders (scan_walk r hs ws) = map folder_record ws \<and>
   counter_get (file_types (folder_record w)) key =
     int (length (filter (\<lambda>file. ext_key file = key) (w_files w))) \<and>
   sum_values (file_types (folder_record w)) = num_files (folder_record w) \<and>
   (CHR ''.'' \<notin> set file \<longrightarrow> ext_key file = []) \<and>
   (os_sep \<notin> set stem \<and> os_sep \<notin> set e \<and> CHR ''.'' \<notin> set e \<longrightarrow>
      final_dot_suffix (stem @ CHR ''.'' # e) = CHR ''.'' # e \<and>
      ext_key (stem @ CHR ''.'' # e) =
        (if \<exists>c\<in>set stem. c \<noteq> CHR ''.'' then lower (CHR ''.'' # e) else [])) \<and>
   ext_key ''scan.DCM'' = ''.dcm'' \<and> ext_key ''.mat'' = [] \<and>
   ext_key ''x.nii.gz'' = ''.gz'' \<and> is_nifti_filename ''x.nii.gz'' \<and>
   ext_key ''a.mat.gz'' = ''.gz'' \<and>
   ((name, sf) \<in> set (subfolders (scan_walk r hs ws)) \<longrightarrow>
      sum_values (sf_file_counts sf) = sf_total_files sf \<and>
      counter_get (sf_file_counts sf) key =
        sum_list (map (\<lambda>folder. counter_get (file_types folder) key) (sf_folder_details sf)) \<and>
      (\<forall>subj cnts. map_of (subject_ext_counts name sf) subj = Some cnts \<longrightarrow>
         sum_values cnts =
           sum_list (map num_files (filter (has_subject name subj) (sf_folder_details sf))) \<and>
         counter_get cnts key =
           sum_list (map (\<lambda>folder. counter_get (file_types folder) key)
                      (filter (has_subject name subj) (sf_folder_details sf))) \<and>
         map_of (subject_status name sf) subj =
           Some (subject_status_of (counter_get cnts ''.mat'') (counter_get cnts ''.dat'')
                   (counter_get cnts ''.ima'')))) \<and>
   subject_status ''C'' (example_group ''C'') = [(''S3'', ''Unknown'')] \<and>
   subject_status ''D'' hidden_group = [(''S4'', ''Unknown'')]"
proof (intro conjI impI allI)
  show "all_folders (scan_walk r hs ws) = map folder_record ws" by (rule scan_walk_fields)
  show "counter_get (file_types (folder_record w)) key =
     int (length (filter (\<lambda>file. ext_key file = key) (w_files w)))" by (rule counter_get_file_types)
  show "sum_values (file_types (folder_record w)) = num_files (folder_record w)"
    by (rule sum_values_file_types)
  show "CHR ''.'' \<notin> set file \<Longrightarrow> ext_key file = []" by (simp add: splitext_no_dot lower_def)
  show "os_sep \<notin> set stem \<and> os_sep \<notin> set e \<and> CHR ''.'' \<notin> set e \<Longrightarrow>
      final_dot_suffix (stem @ CHR ''.'' # e) = CHR ''.'' # e"
    by (simp add: final_dot_suffix_last)
  show "os_sep \<notin> set stem \<and> os_sep \<notin> set e \<and> CHR ''.'' \<notin> set e \<Longrightarrow>
      ext_key (stem @ CHR ''.'' # e) =
        (if \<exists>c\<in>set stem. c \<noteq> CHR ''.'' then lower (CHR ''.'' # e) else [])"
    by (rule ext_key_by_stem) simp_all
  show "ext_key ''scan.DCM'' = ''.dcm''" by code_simp
  show "ext_key ''.mat'' = []" by code_simp
  show "ext_key ''x.nii.gz'' = ''.gz''" by code_simp
  show "is_nifti_filename ''x.nii.gz''" by code_simp
  show "ext_key ''a.mat.gz'' = ''.gz''" by code_simp
  show "subject_status ''C'' (example_group ''C'') = [(''S3'', ''Unknown'')]" by code_simp
  show "subject_status ''D'' hidden_group = [(''S4'', ''Unknown'')]" by code_simp
next
  assume m: "(name, sf) \<in> set (subfolders (scan_walk r hs ws))"
  show "sum_values (sf_file_counts sf) = sf_total_files sf" using group_totals_walk [OF m] by blast
  show "counter_get (sf_file_counts sf) key =
        sum_list (map (\<lambda>folder. counter_get (file_types folder) key) (sf_folder_details sf))"
    by (rule counter_get_file_counts [OF m])
next
  fix subj cnts
  assume m: "(name, sf) \<in> set (subfolders (scan_walk r hs ws))"
    and s: "map_of (subject_ext_counts name sf) subj = Some cnts"
  show "sum_values cnts =
           sum_list (map num_files (filter (has_subject name subj) (sf_folder_details sf)))"
    by (rule subject_totals(1) [OF m s])
  show "counter_get cnts key =
           sum_list (map (\<lambda>folder. counter_get (file_types folder) key)
                      (filter (has_subject name subj) (sf_folder_details sf)))"
    by (rule subject_totals(2) [OF m s])
  show "map_of (subject_status name sf) subj =
           Some (subject_status_of (counter_get cnts ''.mat'') (counter_get cnts ''.dat'')
                   (counter_get cnts ''.ima''))"
    by (simp add: map_of_subject_status s status_of_counts_def)
qed

text \<open>
  The file named \<^verbatim>\<open>.mat\<close> has the final dot-suffix \<^verbatim>\<open>.mat\<close> and a dot in its name,
  and is counted under the empty key.
\<close>

theorem extension_key_not_final_dot_suffix:
  "lower (final_dot_suffix ''.mat'') = ''.mat'' \<and>
   ext_key ''.mat'' = [] \<and>
   ext_key ''.mat'' \<noteq> lower (final_dot_suffix ''.mat'') \<and>
   subject_status ''D'' hidden_group = [(''S4'', ''Unknown'')]"
  by code_simp

theorem extension_keys_last_suffix_witness:
  "ext_key ''README'' = [] \<and>
   ext_key ''scan.DCM'' = ''.dcm'' \<and>
   ext_key ''.bashrc'' = [] \<and>
   sum_values (sf_file_counts (example_group ''C'')) = sf_total_files (example_group ''C'') \<and>
   sum_values [(''.gz'', 1)] =
     sum_list (map num_files (filter (has_subject ''C'' ''S3'') (sf_folder_details (example_group ''C'')))) \<and>
   map_of (subject_status ''C'' (example_group ''C'')) ''S3'' =
     Some (subject_status_of (counter_get [(''.gz'', 1)] ''.mat'') (counter_get [(''.gz'', 1)] ''.dat'')
             (counter_get [(''.gz'', 1)] ''.ima''))"
proof -
  note t = extension_keys_last_suffix [where ?r = "''/data/Human''" and ?hs = "[''A'', ''B'', ''C'']"
      and ?ws = "os_walk ''/data/Human'' [] example_tree" and ?key = "''.mat''"
      and ?file = "''README''" and ?stem = "''scan''" and ?e = "''DCM''" and ?name = "''C''"
      and ?sf = "example_group ''C''"
      and ?w = "\<lparr>w_root = ''/data/Human'', w_rel_path = ''.'', w_dirs = [], w_files = []\<rparr>"]
  note h = extension_keys_last_suffix [where ?stem = "[]" and ?e = "''bashrc''"]
  have nd: "CHR ''.'' \<notin> set ''README''" by simp
  have st: "os_sep \<notin> set ''scan'' \<and> os_sep \<notin> set ''DCM'' \<and> CHR ''.'' \<notin> set ''DCM''"
    by (simp add: os_sep_def)
  have sh: "os_sep \<notin> set [] \<and> os_sep \<notin> set ''bashrc'' \<and> CHR ''.'' \<notin> set ''bashrc''"
    by (simp add: os_sep_def)
  have b: "ext_key ''.bashrc'' = []" using h sh by simp
  have m: "(''C'', example_group ''C'') \<in>
      set (subfolders (scan_walk ''/data/Human'' [''A'', ''B'', ''C''] (os_walk ''/data/Human'' [] example_tree)))"
    using example_member(3) by (simp only: example_scan_walk)
  show ?thesis using t nd st m b example_subject by blast
qed

end
